theory Spec2Isabelle
  imports Main "HOL-Library.Word"
begin

section \<open>The parallel matrix multiplier\<close>

text \<open>
  A Go \<open>[][]int\<close> is a list of rows of machine integers. Go's \<open>int\<close> has the width of
  the host (32 or 64 bits) and wraps around silently, so the cells are \<open>'w word\<close> for any
  width \<open>'w\<close>; the request handler below fixes the width at 64.
\<close>

type_synonym 'w matrix = "'w word list list"

text \<open>Run-time panics of the Go code: an index out of range, and \<open>make\<close> with a negative length.\<close>

datatype panic = IndexOutOfRange | MakeSliceLenOutOfRange

text \<open>Reading \<open>m[i][j]\<close>: Go panics when either index is out of range.\<close>

definition at2 :: "'a list list \<Rightarrow> nat \<Rightarrow> nat \<Rightarrow> 'a option" where
  "at2 m i j =
     (if i < length m then (if j < length (m ! i) then Some (m ! i ! j) else None) else None)"

text \<open>
  Lines 63-66 of \<open>multiplyMatricesParallel\<close>: \<open>size\<close> rows of \<open>size\<close> cells, each the zero
  value of \<open>int\<close>.
\<close>

definition make_result :: "nat \<Rightarrow> 'w::len matrix" where
  "make_result sz = replicate sz (replicate sz 0)"

text \<open>
  One goroutine runs \<open>multiplyRow\<close> for each row. Its control point is either the head of
  the outer loop for column \<open>j\<close> (the test \<open>j < size\<close> followed by the \<open>select\<close> on
  \<open>ctx.Done()\<close>), or the head of the inner loop at \<open>(j, k)\<close>, or the end of the function
  (after \<open>wg.Done()\<close>).
\<close>

datatype rowpc = ColCheck nat | Inner nat nat | RowDone

record 'a mstate =
  result :: "'a list list"
  tasks :: "rowpc list"

text \<open>
  One atomic step of the goroutine for \<open>row\<close>. The flag \<open>fired\<close> says whether the
  channel \<open>ctx.Done()\<close> is closed at this moment; it is read only at \<open>ColCheck\<close>.
  At \<open>Inner j k\<close> with \<open>k < size\<close> the step is the statement
  \<open>result[row][j] += a[row][k] * b[k][j]\<close>.
\<close>

definition multiplyRow_step ::
  "bool \<Rightarrow> 'w::len matrix \<Rightarrow> 'w matrix \<Rightarrow> nat \<Rightarrow> nat \<Rightarrow> 'w word mstate \<Rightarrow> panic + 'w word mstate" where
  "multiplyRow_step fired a b sz row st =
     (case tasks st ! row of
        ColCheck j \<Rightarrow>
          if j < sz then
            (if fired then Inr (st\<lparr>tasks := (tasks st)[row := RowDone]\<rparr>)
             else Inr (st\<lparr>tasks := (tasks st)[row := Inner j 0]\<rparr>))
          else Inr (st\<lparr>tasks := (tasks st)[row := RowDone]\<rparr>)
      | Inner j k \<Rightarrow>
          if k < sz then
            (case at2 a row k of
               None \<Rightarrow> Inl IndexOutOfRange
             | Some x \<Rightarrow>
               (case at2 b k j of
                  None \<Rightarrow> Inl IndexOutOfRange
                | Some y \<Rightarrow>
                  (case at2 (result st) row j of
                     None \<Rightarrow> Inl IndexOutOfRange
                   | Some r \<Rightarrow>
                       Inr (st\<lparr>result := (result st)[row := (result st ! row)[j := r + x * y]],
                               tasks := (tasks st)[row := Inner j (Suc k)]\<rparr>))))
          else Inr (st\<lparr>tasks := (tasks st)[row := ColCheck (Suc j)]\<rparr>)
      | RowDone \<Rightarrow> Inr st)"

text \<open>
  The scheduler and the outside world, as a list of events: \<open>Run i\<close> lets the goroutine of
  row \<open>i\<close> take its next step, \<open>Cancel\<close> closes \<open>ctx.Done()\<close> (a closed channel stays
  closed). Every interleaving of the goroutines is such a list. The goroutines are all
  present from the start: one that the spawning loop has not started yet is one that has
  not been scheduled yet.
\<close>

datatype mevent = Run nat | Cancel

fun run_tasks ::
  "'w::len matrix \<Rightarrow> 'w matrix \<Rightarrow> nat \<Rightarrow> mevent list \<Rightarrow> bool \<times> 'w word mstate
     \<Rightarrow> panic + bool \<times> 'w word mstate" where
  "run_tasks a b sz [] cs = Inr cs"
| "run_tasks a b sz (Cancel # es) (c, st) = run_tasks a b sz es (True, st)"
| "run_tasks a b sz (Run i # es) (c, st) =
     (if i < sz then
        (case multiplyRow_step c a b sz i st of
           Inl p \<Rightarrow> Inl p
         | Inr st' \<Rightarrow> run_tasks a b sz es (c, st'))
      else run_tasks a b sz es (c, st))"

text \<open>
  The state in which \<open>multiplyMatricesParallel\<close> starts its goroutines: the zeroed result
  and every row's goroutine at the head of its loop.
\<close>

definition multiplier_init :: "nat \<Rightarrow> 'w::len word mstate" where
  "multiplier_init sz = \<lparr>result = make_result sz, tasks = replicate sz (ColCheck 0)\<rparr>"

text \<open>
  What a call can come to: a panic, \<open>wg.Wait()\<close> still blocked when the events run out, or
  the returned matrix. \<open>wg.Wait()\<close> returns once every goroutine has ended; from then on
  no event changes \<open>result\<close>, so the matrix read at the end of the event list is the one
  returned. The flag \<open>c0\<close> says whether \<open>ctx.Done()\<close> is closed when the call starts.
\<close>

datatype 'a outcome = Panicked panic | Blocked | Returned 'a

definition multiplyMatricesParallel ::
  "mevent list \<Rightarrow> bool \<Rightarrow> 'w::len matrix \<Rightarrow> 'w matrix \<Rightarrow> int \<Rightarrow> 'w matrix outcome" where
  "multiplyMatricesParallel sched c0 a b sz =
     (if sz < 0 then Panicked MakeSliceLenOutOfRange
      else
        (case run_tasks a b (nat sz) sched (c0, multiplier_init (nat sz)) of
           Inl p \<Rightarrow> Panicked p
         | Inr (c, st) \<Rightarrow>
             if list_all (\<lambda>t. t = RowDone) (tasks st) then Returned (result st) else Blocked))"

text \<open>An \<open>n\<close> by \<open>n\<close> matrix: \<open>n\<close> rows of \<open>n\<close> cells.\<close>

definition square :: "nat \<Rightarrow> 'a list list \<Rightarrow> bool" where
  "square n m = (length m = n \<and> list_all (\<lambda>r. length r = n) m)"

text \<open>
  Row \<open>i\<close> of the product with its first \<open>j\<close> columns computed and the rest still at the
  zero value: what a goroutine that stops at column \<open>j\<close> leaves behind.
\<close>

definition product_prefix :: "'w::len matrix \<Rightarrow> 'w matrix \<Rightarrow> nat \<Rightarrow> nat \<Rightarrow> nat \<Rightarrow> 'w word list" where
  "product_prefix a b n i j =
     map (\<lambda>q. \<Sum>k<n. a ! i ! k * b ! k ! q) [0..<j] @ replicate (n - j) 0"

text \<open>The reference product: every row computed in full.\<close>

definition matrix_product :: "'w::len matrix \<Rightarrow> 'w matrix \<Rightarrow> nat \<Rightarrow> 'w matrix" where
  "matrix_product a b n = map (\<lambda>i. product_prefix a b n i n) [0..<n]"

subsection \<open>Invariant of the goroutines\<close>

text \<open>The cell \<open>(i, j)\<close> of the product, summed over the first \<open>k\<close> terms, in word arithmetic.\<close>

definition pdot :: "'w::len matrix \<Rightarrow> 'w matrix \<Rightarrow> nat \<Rightarrow> nat \<Rightarrow> nat \<Rightarrow> 'w word" where
  "pdot a b i j k = (\<Sum>q<k. a ! i ! q * b ! q ! j)"

text \<open>
  What row \<open>i\<close> of \<open>result\<close> holds, by the control point of its goroutine: the columns
  before \<open>j\<close> are computed, column \<open>j\<close> holds the sum of its first \<open>k\<close> terms, the columns
  after it are zero. A goroutine that has ended stopped at some column \<open>j\<close>, and before
  the last one only if the signal has fired (\<open>c\<close>).
\<close>

definition row_inv ::
  "'w::len matrix \<Rightarrow> 'w matrix \<Rightarrow> nat \<Rightarrow> bool \<Rightarrow> nat \<Rightarrow> 'w word list \<Rightarrow> rowpc \<Rightarrow> bool" where
  "row_inv a b n c i r t =
     (length r = n \<and>
      (case t of
         ColCheck j \<Rightarrow> j \<le> n \<and> (\<forall>q<n. r ! q = (if q < j then pdot a b i q n else 0))
       | Inner j k \<Rightarrow> j < n \<and> k \<le> n \<and>
           (\<forall>q<n. r ! q = (if q < j then pdot a b i q n else if q = j then pdot a b i j k else 0))
       | RowDone \<Rightarrow> (\<exists>j\<le>n. (j < n \<longrightarrow> c) \<and>
           (\<forall>q<n. r ! q = (if q < j then pdot a b i q n else 0)))))"

definition minv :: "'w::len matrix \<Rightarrow> 'w matrix \<Rightarrow> nat \<Rightarrow> bool \<Rightarrow> 'w word mstate \<Rightarrow> bool" where
  "minv a b n c st =
     (length (result st) = n \<and> length (tasks st) = n \<and>
      (\<forall>i<n. row_inv a b n c i (result st ! i) (tasks st ! i)))"

text \<open>
  The number of steps a goroutine still has to take when the signal never fires: \<open>n + 2\<close>
  for each column (the check, \<open>n\<close> additions, the exit of the inner loop) and one to end.
\<close>

fun remaining :: "nat \<Rightarrow> rowpc \<Rightarrow> nat" where
  "remaining n (ColCheck j) = (n - j) * (n + 2) + 1"
| "remaining n (Inner j k) = (n - k) + (n - Suc j) * (n + 2) + 2"
| "remaining n RowDone = 0"

section \<open>Standard-library functions the handler calls\<close>

text \<open>
  The repository calls \<open>strconv.Atoi\<close>, \<open>net.SplitHostPort\<close> and \<open>fmt.Fprintf\<close> of the Go
  standard library. They are not code of the repository; the definitions of this section
  follow the library's documented behaviour on a 64-bit host, byte for byte on strings.
\<close>

subsection \<open>strconv.Atoi\<close>

datatype num_error = ErrSyntax | ErrRange

definition is_digit :: "char \<Rightarrow> bool" where
  "is_digit c = (48 \<le> (of_char c :: int) \<and> (of_char c :: int) \<le> 57)"

definition digit_of :: "char \<Rightarrow> int" where
  "digit_of c = of_char c - 48"

text \<open>
  The digit loop of \<open>ParseUint\<close> in base 10: a byte that is no digit is a syntax error, a
  value past \<open>2^64 - 1\<close> a range error, whichever comes first from the left.
\<close>

fun parse_digits :: "int \<Rightarrow> string \<Rightarrow> num_error + int" where
  "parse_digits n [] = Inr n"
| "parse_digits n (c # cs) =
     (if \<not> is_digit c then Inl ErrSyntax
      else if n * 10 + digit_of c > 2 ^ 64 - 1 then Inl ErrRange
      else parse_digits (n * 10 + digit_of c) cs)"

text \<open>
  \<open>Atoi(s)\<close> is \<open>ParseInt(s, 10, 0)\<close>: an optional sign, then at least one digit. On a
  syntax error the value is 0; on a range error it is the nearest \<open>int\<close>, \<open>2^63 - 1\<close> or
  \<open>-2^63\<close>. The second component is the error, \<open>None\<close> for \<open>nil\<close>.
\<close>

definition Atoi :: "string \<Rightarrow> int \<times> num_error option" where
  "Atoi s =
     (case s of
        [] \<Rightarrow> (0, Some ErrSyntax)
      | c # cs \<Rightarrow>
          (let neg = (c = CHR ''-'');
               ds = (if c = CHR ''-'' \<or> c = CHR ''+'' then cs else s)
           in if ds = [] then (0, Some ErrSyntax)
              else
                (case parse_digits 0 ds of
                   Inl ErrSyntax \<Rightarrow> (0, Some ErrSyntax)
                 | Inl ErrRange \<Rightarrow> (if neg then - (2 ^ 63) else 2 ^ 63 - 1, Some ErrRange)
                 | Inr un \<Rightarrow>
                     if \<not> neg \<and> un \<ge> 2 ^ 63 then (2 ^ 63 - 1, Some ErrRange)
                     else if neg \<and> un > 2 ^ 63 then (- (2 ^ 63), Some ErrRange)
                     else (if neg then - un else un, None))))"

subsection \<open>net.SplitHostPort\<close>

datatype addr_error =
  MissingPort | TooManyColons | MissingCloseBracket | UnexpectedOpenBracket | UnexpectedCloseBracket

text \<open>\<open>IndexByte\<close> and \<open>LastIndexByte\<close>: the first and the last position of a byte, if any.\<close>

definition index_byte :: "string \<Rightarrow> char \<Rightarrow> nat option" where
  "index_byte s c = (if c \<in> set s then Some (length (takeWhile (\<lambda>x. x \<noteq> c) s)) else None)"

definition last_index_byte :: "string \<Rightarrow> char \<Rightarrow> nat option" where
  "last_index_byte s c =
     (if c \<in> set s then Some (length s - Suc (length (takeWhile (\<lambda>x. x \<noteq> c) (rev s)))) else None)"

text \<open>
  The tail of \<open>SplitHostPort\<close>, shared by both forms of host: no \<open>[\<close> from position \<open>j\<close>
  on, no \<open>]\<close> from position \<open>k\<close> on, and the port is what follows the last colon at \<open>i\<close>.
\<close>

definition split_tail ::
  "string \<Rightarrow> string \<Rightarrow> nat \<Rightarrow> nat \<Rightarrow> nat \<Rightarrow> addr_error + string \<times> string" where
  "split_tail hostport host i j k =
     (if CHR ''['' \<in> set (drop j hostport) then Inl UnexpectedOpenBracket
      else if CHR '']'' \<in> set (drop k hostport) then Inl UnexpectedCloseBracket
      else Inr (host, drop (Suc i) hostport))"

definition SplitHostPort :: "string \<Rightarrow> addr_error + string \<times> string" where
  "SplitHostPort hostport =
     (case last_index_byte hostport CHR '':'' of
        None \<Rightarrow> Inl MissingPort
      | Some i \<Rightarrow>
          if hd hostport = CHR ''['' then
            (case index_byte hostport CHR '']'' of
               None \<Rightarrow> Inl MissingCloseBracket
             | Some e \<Rightarrow>
                 if Suc e = length hostport then Inl MissingPort
                 else if Suc e = i then
                   split_tail hostport (take (e - 1) (drop 1 hostport)) i 1 (Suc e)
                 else if hostport ! Suc e = CHR '':'' then Inl TooManyColons
                 else Inl MissingPort)
          else if CHR '':'' \<in> set (take i hostport) then Inl TooManyColons
          else split_tail hostport (take i hostport) i 0 0)"

subsection \<open>fmt: the verbs \<open>%d\<close> and \<open>%v\<close>\<close>

definition digit_char :: "int \<Rightarrow> char" where
  "digit_char d = ''0123456789'' ! nat d"

text \<open>The decimal digits of a number that is not negative.\<close>

function show_nat :: "int \<Rightarrow> string" where
  "show_nat n = (if n < 10 then [digit_char n] else show_nat (n div 10) @ [digit_char (n mod 10)])"
  by pat_completeness auto
termination
  by (relation "measure nat") auto

declare show_nat.simps [simp del]

text \<open>\<open>%d\<close> of an integer: decimal digits, a minus sign before a negative one.\<close>

definition show_int :: "int \<Rightarrow> string" where
  "show_int i = (if i < 0 then CHR ''-'' # show_nat (- i) else show_nat i)"

fun join_space :: "string list \<Rightarrow> string" where
  "join_space [] = []"
| "join_space [x] = x"
| "join_space (x # y # ys) = x @ CHR '' '' # join_space (y # ys)"

text \<open>\<open>%v\<close> of a \<open>[]int\<close>: the elements in decimal, separated by spaces, in brackets.\<close>

definition show_row :: "64 word list \<Rightarrow> string" where
  "show_row r = CHR ''['' # join_space (map (\<lambda>x. show_int (sint x)) r) @ '']''"

section \<open>The registry and the request handler\<close>

text \<open>
  \<open>extractIP\<close>: the host of \<open>r.RemoteAddr\<close> when it splits into host and port, the whole
  string otherwise.
\<close>

definition extractIP :: "string \<Rightarrow> string" where
  "extractIP remoteAddr =
     (case SplitHostPort remoteAddr of
        Inr (ip, port) \<Rightarrow> ip
      | Inl err \<Rightarrow> remoteAddr)"

text \<open>
  \<open>generateMatrix\<close>: \<open>size\<close> rows of \<open>size\<close> cells, each a draw \<open>rand.Intn(100)\<close>. The
  generator is outside the program: \<open>rnd i j\<close> is the number behind the draw for cell
  \<open>(i, j)\<close>, which \<open>Intn(100)\<close> brings into \<open>[0, 100)\<close>. The handler calls it with a
  positive size only.
\<close>

definition generateMatrix :: "(nat \<Rightarrow> nat \<Rightarrow> nat) \<Rightarrow> nat \<Rightarrow> 64 matrix" where
  "generateMatrix rnd sz = map (\<lambda>i. map (\<lambda>j. of_nat (rnd i j mod 100)) [0..<sz]) [0..<sz]"

text \<open>
  What one call of \<open>handler\<close> receives from outside: the request's \<open>RemoteAddr\<close> and its
  \<open>size\<close> query parameter (empty when absent), whether \<open>storeRequestInfo\<close> returns an
  error, the random draws for the two matrices, and the milliseconds the clock measures.
\<close>

record invocation =
  remoteAddr :: string
  sizeParam :: string
  storeFails :: bool
  randA :: "nat \<Rightarrow> nat \<Rightarrow> nat"
  randB :: "nat \<Rightarrow> nat \<Rightarrow> nat"
  elapsedMillis :: int

text \<open>
  The repository holds two versions of \<open>handler\<close>. \<open>V2\<close> is \<open>concurrency/v2/main.go\<close>,
  which stores the request in the database; \<open>Part000\<close> is the file whose name is not
  known, which has no database and tests the size against 2000 before it applies the
  default.
\<close>

datatype variant = V2 | Part000

text \<open>Where the size sends the handler: to the wait of lines 170-174, or on to compute.\<close>

datatype path = Oversize | Compute int

text \<open>Lines 163-175 of \<open>concurrency/v2/main.go\<close>: parse, default, then the test against 2000.\<close>

definition sizing_v2 :: "string \<Rightarrow> path" where
  "sizing_v2 matrixSizeParam =
     (let (parsed, err) = Atoi matrixSizeParam;
          matrixSize = (if err \<noteq> None \<or> parsed \<le> 0 then 100 else parsed)
      in if matrixSize > 2000 then Oversize else Compute matrixSize)"

text \<open>Lines 98-109 of the unnamed file: parse, the test against 2000, then the default.\<close>

definition sizing_part000 :: "string \<Rightarrow> path" where
  "sizing_part000 matrixSizeParam =
     (let (parsed, err) = Atoi matrixSizeParam
      in if parsed > 2000 then Oversize
         else Compute (if err \<noteq> None \<or> parsed \<le> 0 then 100 else parsed))"

definition sizing :: "variant \<Rightarrow> string \<Rightarrow> path" where
  "sizing ver p = (case ver of V2 \<Rightarrow> sizing_v2 p | Part000 \<Rightarrow> sizing_part000 p)"

text \<open>
  The control points of one call of \<open>handler\<close>, one for each access to what it shares with
  other goroutines:
  \<^item> \<open>Accepted\<close>: before \<open>cancelPreviousRequest(ip)\<close>;
  \<^item> \<open>Superseded\<close>: before the registration \<open>activeRequests[ip] = cancel\<close>;
  \<^item> \<open>Registered\<close>: before the size is parsed and tested;
  \<^item> \<open>AwaitCancel\<close>: in the \<open>select\<close> of the oversize branch, which has no default;
  \<^item> \<open>Sized\<close>: before \<open>storeRequestInfo\<close> and the generation of the matrices;
  \<^item> \<open>Computing\<close>: in \<open>wg.Wait()\<close>, while the row goroutines run;
  \<^item> \<open>Reporting\<close>: before the last \<open>select\<close> on \<open>ctx.Done()\<close>;
  \<^item> \<open>Writing\<close>: in the default branch, before the result is written;
  \<^item> \<open>Finished\<close>: the handler has returned.
\<close>

datatype hpc =
  Accepted | Superseded | Registered | AwaitCancel | Sized | Computing | Reporting | Writing | Finished

text \<open>The local variables of one call, and what it has written to the response.\<close>

record job =
  pc :: hpc
  ip :: string
  matrixSize :: int
  mat_a :: "64 matrix"
  mat_b :: "64 matrix"
  mult :: "64 word mstate"
  body :: string
  statusCode :: nat

text \<open>
  The shared state. Every call of \<open>handler\<close> creates exactly one context, so the number of
  the call stands for its context and its cancel function: \<open>activeRequests\<close> maps a key to
  the call whose cancel function it stores, and \<open>cancelled\<close> holds the calls whose
  \<open>ctx.Done()\<close> is closed. \<open>crashed\<close> is set when a goroutine panics, which ends the
  process.
\<close>

record sys =
  activeRequests :: "string \<Rightarrow> nat option"
  cancelled :: "nat set"
  jobs :: "nat \<Rightarrow> job"
  crashed :: bool

text \<open>\<open>cancelPreviousRequest\<close>, one critical section of the mutex \<open>mu\<close>.\<close>

definition cancelPreviousRequest :: "string \<Rightarrow> sys \<Rightarrow> sys" where
  "cancelPreviousRequest key s =
     (case activeRequests s key of
        Some cancelFunc \<Rightarrow>
          s\<lparr>cancelled := insert cancelFunc (cancelled s),
            activeRequests := (activeRequests s)(key := None)\<rparr>
      | None \<Rightarrow> s)"

definition upd_job :: "nat \<Rightarrow> (job \<Rightarrow> job) \<Rightarrow> sys \<Rightarrow> sys" where
  "upd_job j f s = s\<lparr>jobs := (jobs s)(j := f (jobs s j))\<rparr>"

text \<open>Lines 197-201: the two header lines and one line for each row of the result.\<close>

definition success_body :: "int \<Rightarrow> int \<Rightarrow> 64 matrix \<Rightarrow> string" where
  "success_body n ms r =
     ''Matrix multiplication (size: '' @ show_int n @ '') completed in '' @ show_int ms
       @ '' milliseconds\<newline>''
     @ ''Resulting Matrix:\<newline>''
     @ concat (map (\<lambda>row. show_row row @ ''\<newline>'') r)"

definition cancelled_body :: string where
  "cancelled_body = ''Request was cancelled\<newline>''"

definition oversize_body :: string where
  "oversize_body = ''Request was cancelled due to large number\<newline>''"

text \<open>\<open>http.Error\<close> writes the message and a newline, with the status 500.\<close>

definition store_failed_body :: string where
  "store_failed_body = ''Failed to store request info\<newline>''"

text \<open>
  One step of the handler goroutine of call \<open>j\<close>, from its control point to the next.
  \<open>None\<close> means that the goroutine cannot move: it is blocked in a \<open>select\<close> or in
  \<open>wg.Wait()\<close>, or it has returned. (\<open>fmt.Println(ip)\<close> writes to the server's own standard
  output and is left out.)
\<close>

definition handler_step :: "variant \<Rightarrow> invocation \<Rightarrow> nat \<Rightarrow> sys \<Rightarrow> sys option" where
  "handler_step ver iv j s =
     (case pc (jobs s j) of
        Accepted \<Rightarrow>
          Some (upd_job j (\<lambda>x. x\<lparr>ip := extractIP (remoteAddr iv), pc := Superseded\<rparr>)
                  (cancelPreviousRequest (extractIP (remoteAddr iv)) s))
      | Superseded \<Rightarrow>
          Some (upd_job j (\<lambda>x. x\<lparr>pc := Registered\<rparr>)
                  (s\<lparr>activeRequests := (activeRequests s)(ip (jobs s j) \<mapsto> j)\<rparr>))
      | Registered \<Rightarrow>
          (case sizing ver (sizeParam iv) of
             Oversize \<Rightarrow> Some (upd_job j (\<lambda>x. x\<lparr>pc := AwaitCancel\<rparr>) s)
           | Compute n \<Rightarrow> Some (upd_job j (\<lambda>x. x\<lparr>matrixSize := n, pc := Sized\<rparr>) s))
      | AwaitCancel \<Rightarrow>
          if j \<in> cancelled s
          then Some (upd_job j (\<lambda>x. x\<lparr>body := body x @ oversize_body, pc := Finished\<rparr>) s)
          else None
      | Sized \<Rightarrow>
          if ver = V2 \<and> storeFails iv
          then Some (upd_job j
                 (\<lambda>x. x\<lparr>body := body x @ store_failed_body, statusCode := 500, pc := Finished\<rparr>) s)
          else Some (upd_job j
                 (\<lambda>x. x\<lparr>mat_a := generateMatrix (randA iv) (nat (matrixSize x)),
                         mat_b := generateMatrix (randB iv) (nat (matrixSize x)),
                         mult := multiplier_init (nat (matrixSize x)),
                         pc := Computing\<rparr>) s)
      | Computing \<Rightarrow>
          if list_all (\<lambda>t. t = RowDone) (tasks (mult (jobs s j)))
          then Some (upd_job j (\<lambda>x. x\<lparr>pc := Reporting\<rparr>) s)
          else None
      | Reporting \<Rightarrow>
          if j \<in> cancelled s
          then Some (upd_job j (\<lambda>x. x\<lparr>body := body x @ cancelled_body, pc := Finished\<rparr>) s)
          else Some (upd_job j (\<lambda>x. x\<lparr>pc := Writing\<rparr>) s)
      | Writing \<Rightarrow>
          Some (upd_job j
            (\<lambda>x. x\<lparr>body := body x @ success_body (matrixSize x) (elapsedMillis iv) (result (mult x)),
                    pc := Finished\<rparr>) s)
      | Finished \<Rightarrow> None)"

text \<open>
  The scheduler: \<open>Main j\<close> lets the handler goroutine of call \<open>j\<close> take a step, \<open>Row j i\<close>
  the goroutine that \<open>multiplyMatricesParallel\<close> started in call \<open>j\<close> for row \<open>i\<close>. An event
  whose goroutine cannot move, or does not exist, changes nothing. A call has arrived once
  its handler has taken its first step. The handler's call of \<open>multiplyMatricesParallel\<close>
  is spread over these steps: the step from \<open>Sized\<close> generates the matrices and puts the
  multiplier into its initial state, the \<open>Row\<close> events are the steps of \<open>multiplyRow\<close>
  with the call's own context as the signal, and the step from \<open>Computing\<close> is the return
  of \<open>wg.Wait()\<close>.
\<close>

datatype event = Main nat | Row nat nat

definition sys_step :: "variant \<Rightarrow> (nat \<Rightarrow> invocation) \<Rightarrow> sys \<Rightarrow> event \<Rightarrow> sys" where
  "sys_step ver invs s e =
     (if crashed s then s
      else
        (case e of
           Main j \<Rightarrow> (case handler_step ver (invs j) j s of None \<Rightarrow> s | Some s' \<Rightarrow> s')
         | Row j i \<Rightarrow>
             if pc (jobs s j) = Computing \<and> i < nat (matrixSize (jobs s j)) then
               (case multiplyRow_step (j \<in> cancelled s) (mat_a (jobs s j)) (mat_b (jobs s j))
                       (nat (matrixSize (jobs s j))) i (mult (jobs s j)) of
                  Inl p \<Rightarrow> s\<lparr>crashed := True\<rparr>
                | Inr m \<Rightarrow> upd_job j (\<lambda>x. x\<lparr>mult := m\<rparr>) s)
             else s))"

definition exec :: "variant \<Rightarrow> (nat \<Rightarrow> invocation) \<Rightarrow> sys \<Rightarrow> event list \<Rightarrow> sys" where
  "exec ver invs s es = foldl (sys_step ver invs) s es"

text \<open>The server at its start: an empty registry, and no call has arrived.\<close>

definition init_job :: job where
  "init_job = \<lparr>pc = Accepted, ip = [], matrixSize = 0, mat_a = [], mat_b = [],
               mult = \<lparr>result = [], tasks = []\<rparr>, body = [], statusCode = 200\<rparr>"

definition init_sys :: sys where
  "init_sys = \<lparr>activeRequests = (\<lambda>k. None), cancelled = {}, jobs = (\<lambda>j. init_job), crashed = False\<rparr>"

text \<open>The key of a call: what \<open>extractIP\<close> makes of its remote address.\<close>

definition key_of :: "(nat \<Rightarrow> invocation) \<Rightarrow> nat \<Rightarrow> string" where
  "key_of invs j = extractIP (remoteAddr (invs j))"

text \<open>A text as its lines: every line is followed by a newline.\<close>

definition unlines :: "string list \<Rightarrow> string" where
  "unlines ls = concat (map (\<lambda>l. l @ ''\<newline>'') ls)"

text \<open>The first line of a successful response.\<close>

definition header_line :: "int \<Rightarrow> int \<Rightarrow> string" where
  "header_line n ms =
     ''Matrix multiplication (size: '' @ show_int n @ '') completed in '' @ show_int ms
       @ '' milliseconds''"

subsection \<open>The format of a row, in the words of the specification\<close>

text \<open>
  A bracketed, space-separated list: the fields with one space between two neighbours,
  in square brackets.
\<close>

definition space_separated :: "string list \<Rightarrow> string" where
  "space_separated ws =
     (case ws of [] \<Rightarrow> [] | w # vs \<Rightarrow> w @ concat (map (\<lambda>v. CHR '' '' # v) vs))"

definition bracketed :: "string \<Rightarrow> string" where
  "bracketed l = CHR ''['' # l @ '']''"

text \<open>
  The integer a decimal numeral stands for: an optional minus sign, then one digit or
  more, read from the left.
\<close>

fun digits_value :: "int \<Rightarrow> string \<Rightarrow> int option" where
  "digits_value a [] = Some a"
| "digits_value a (c # cs) =
     (if is_digit c then digits_value (10 * a + digit_of c) cs else None)"

definition decimal_value :: "string \<Rightarrow> int option" where
  "decimal_value l =
     (case l of
        [] \<Rightarrow> None
      | c # cs \<Rightarrow>
          if c = CHR ''-'' then (if cs = [] then None else map_option uminus (digits_value 0 cs))
          else digits_value 0 l)"

subsection \<open>Calls used as examples\<close>

text \<open>
  A request for size 1 from \<open>10.0.0.1\<close>, whose matrices are \<open>[[7]]\<close> and \<open>[[6]]\<close>; the
  same request with the size 2001; and one from another address.
\<close>

definition small_call :: invocation where
  "small_call = \<lparr>remoteAddr = ''10.0.0.1:5000'', sizeParam = ''1'', storeFails = False,
                 randA = (\<lambda>i j. 7), randB = (\<lambda>i j. 6), elapsedMillis = 3\<rparr>"

definition oversize_call :: invocation where
  "oversize_call = small_call\<lparr>sizeParam := ''2001''\<rparr>"

text \<open>The same request with the size 50000.\<close>

definition big_call :: invocation where
  "big_call = small_call\<lparr>sizeParam := ''50000''\<rparr>"

definition other_call :: invocation where
  "other_call = small_call\<lparr>remoteAddr := ''10.0.0.2:6000''\<rparr>"

text \<open>Two clients: call 0 comes from \<open>10.0.0.1\<close>, every other call from \<open>10.0.0.2\<close>.\<close>

definition two_keys :: "nat \<Rightarrow> invocation" where
  "two_keys j = (if j = 0 then small_call else other_call)"

text \<open>A request whose size is a numeral past the largest \<open>int\<close>.\<close>

definition huge_call :: invocation where
  "huge_call = small_call\<lparr>sizeParam := ''99999999999999999999''\<rparr>"

text \<open>
  A request for size 2 from \<open>10.0.0.3\<close>, whose matrices are \<open>[[1, 2], [11, 12]]\<close> and
  \<open>[[20, 23], [27, 30]]\<close>.
\<close>

definition pair_call :: invocation where
  "pair_call = \<lparr>remoteAddr = ''10.0.0.3:7000'', sizeParam = ''2'', storeFails = False,
                randA = (\<lambda>i j. 10 * i + j + 1), randB = (\<lambda>i j. 7 * i + 3 * j + 20),
                elapsedMillis = 125\<rparr>"

section \<open>Invariants of the server\<close>

text \<open>A call is registered once it has stored its cancel function in \<open>activeRequests\<close>.\<close>

definition registered :: "hpc \<Rightarrow> bool" where
  "registered p = (p \<noteq> Accepted \<and> p \<noteq> Superseded)"

text \<open>The size has passed the test against 2000 and the matrices are those generated for it.\<close>

definition sized :: "variant \<Rightarrow> invocation \<Rightarrow> job \<Rightarrow> bool" where
  "sized ver iv x = (sizing ver (sizeParam iv) = Compute (matrixSize x))"

definition generated :: "invocation \<Rightarrow> job \<Rightarrow> bool" where
  "generated iv x =
     (mat_a x = generateMatrix (randA iv) (nat (matrixSize x)) \<and>
      mat_b x = generateMatrix (randB iv) (nat (matrixSize x)))"

definition rows_done :: "job \<Rightarrow> bool" where
  "rows_done x = list_all (\<lambda>t. t = RowDone) (tasks (mult x))"

definition mult_inv :: "bool \<Rightarrow> job \<Rightarrow> bool" where
  "mult_inv c x = minv (mat_a x) (mat_b x) (nat (matrixSize x)) c (mult x)"

text \<open>
  What holds of the local state of a call at each control point; \<open>c\<close> says whether its
  context is cancelled. Nothing is written to the response before the handler returns,
  and what it has written then is one of four bodies.
\<close>

definition job_inv :: "variant \<Rightarrow> invocation \<Rightarrow> bool \<Rightarrow> job \<Rightarrow> bool" where
  "job_inv ver iv c x =
     (case pc x of
        Accepted \<Rightarrow> body x = []
      | Superseded \<Rightarrow> body x = [] \<and> ip x = extractIP (remoteAddr iv)
      | Registered \<Rightarrow> body x = [] \<and> ip x = extractIP (remoteAddr iv)
      | AwaitCancel \<Rightarrow> body x = [] \<and> ip x = extractIP (remoteAddr iv) \<and>
          sizing ver (sizeParam iv) = Oversize
      | Sized \<Rightarrow> body x = [] \<and> ip x = extractIP (remoteAddr iv) \<and> sized ver iv x
      | Computing \<Rightarrow> body x = [] \<and> ip x = extractIP (remoteAddr iv) \<and> sized ver iv x \<and>
          generated iv x \<and> mult_inv c x
      | Reporting \<Rightarrow> body x = [] \<and> ip x = extractIP (remoteAddr iv) \<and> sized ver iv x \<and>
          generated iv x \<and> mult_inv c x \<and> rows_done x
      | Writing \<Rightarrow> body x = [] \<and> ip x = extractIP (remoteAddr iv) \<and> sized ver iv x \<and>
          generated iv x \<and> mult_inv False x \<and> rows_done x
      | Finished \<Rightarrow> ip x = extractIP (remoteAddr iv) \<and>
          ((sizing ver (sizeParam iv) = Oversize \<and> c \<and> body x = oversize_body) \<or>
           (sized ver iv x \<and> ver = V2 \<and> storeFails iv \<and> body x = store_failed_body) \<or>
           (sized ver iv x \<and> generated iv x \<and> rows_done x \<and> c \<and> body x = cancelled_body) \<or>
           (sized ver iv x \<and> generated iv x \<and> rows_done x \<and> mult_inv False x \<and>
            body x = success_body (matrixSize x) (elapsedMillis iv) (result (mult x)))))"

text \<open>
  What holds of every state the server can reach: no goroutine has panicked, a key's
  entry in \<open>activeRequests\<close> belongs to a registered call with that key, only registered
  calls are cancelled, and every call's local state is as above.
\<close>

definition sys_inv :: "variant \<Rightarrow> (nat \<Rightarrow> invocation) \<Rightarrow> sys \<Rightarrow> bool" where
  "sys_inv ver invs s =
     (\<not> crashed s \<and>
      (\<forall>k j. activeRequests s k = Some j \<longrightarrow> registered (pc (jobs s j)) \<and> ip (jobs s j) = k) \<and>
      (\<forall>j. j \<in> cancelled s \<longrightarrow> registered (pc (jobs s j))) \<and>
      (\<forall>j. job_inv ver (invs j) (j \<in> cancelled s) (jobs s j)))"

text \<open>
  A call that has not generated matrices and has not started the multiplier: its local
  matrices and the multiplier's state are still the empty ones it began with.
\<close>

definition never_computed :: "job \<Rightarrow> bool" where
  "never_computed x = (mat_a x = [] \<and> mat_b x = [] \<and> result (mult x) = [] \<and> tasks (mult x) = [])"

text \<open>
  What holds of a call whose size sends it to the oversize wait: it is before or in the
  wait with nothing written, or it has returned with the oversize message after its
  context was cancelled.
\<close>

definition waiting_inv :: "nat \<Rightarrow> sys \<Rightarrow> bool" where
  "waiting_inv j s =
     (never_computed (jobs s j) \<and>
      ((pc (jobs s j) = Accepted \<or> pc (jobs s j) = Superseded \<or> pc (jobs s j) = Registered \<or>
        pc (jobs s j) = AwaitCancel) \<and> body (jobs s j) = [] \<or>
       pc (jobs s j) = Finished \<and> body (jobs s j) = oversize_body \<and> j \<in> cancelled s))"

text \<open>
  What holds of a call from the moment its context is cancelled while it is registered
  and before its last \<open>select\<close>: it has written nothing yet, or it has returned with a
  cancellation message or, in the version with the database, with the failure of the
  store.
\<close>

definition doomed :: "variant \<Rightarrow> (nat \<Rightarrow> invocation) \<Rightarrow> nat \<Rightarrow> sys \<Rightarrow> bool" where
  "doomed ver invs j s =
     (j \<in> cancelled s \<and>
      ((pc (jobs s j) = Registered \<or> pc (jobs s j) = AwaitCancel \<or> pc (jobs s j) = Sized \<or>
        pc (jobs s j) = Computing \<or> pc (jobs s j) = Reporting) \<and> body (jobs s j) = [] \<or>
       pc (jobs s j) = Finished \<and>
         (body (jobs s j) = cancelled_body \<or> body (jobs s j) = oversize_body \<or>
          body (jobs s j) = store_failed_body \<and> ver = V2 \<and> storeFails (invs j))))"

text \<open>
  How far a call that is sent to the oversize wait has come: its position on the way
  from its arrival to its return.
\<close>

fun wait_rank :: "hpc \<Rightarrow> nat" where
  "wait_rank Accepted = 0"
| "wait_rank Superseded = 1"
| "wait_rank Registered = 2"
| "wait_rank AwaitCancel = 3"
| "wait_rank Finished = 4"
| "wait_rank Sized = 0"
| "wait_rank Computing = 0"
| "wait_rank Reporting = 0"
| "wait_rank Writing = 0"

text \<open>
  No entry of \<open>activeRequests\<close> belongs to a call whose context is cancelled:
  \<open>cancelPreviousRequest\<close> deletes the entry whose cancel function it calls.
\<close>

definition entries_live :: "sys \<Rightarrow> bool" where
  "entries_live s = (\<forall>k j. activeRequests s k = Some j \<longrightarrow> j \<notin> cancelled s)"

section \<open>Proofs: the multiplier\<close>

lemma square_at2: "square n m \<Longrightarrow> i < n \<Longrightarrow> j < n \<Longrightarrow> at2 m i j = Some (m ! i ! j)"
  by (auto simp: square_def at2_def list_all_length)

lemma pdot_Suc: "pdot a b i j (Suc k) = pdot a b i j k + a ! i ! k * b ! k ! j"
  by (simp add: pdot_def)

lemma pdot_0: "pdot a b i j 0 = 0"
  by (simp add: pdot_def)

lemma minv_init: "minv a b n c (multiplier_init n)"
  by (simp add: minv_def row_inv_def make_result_def multiplier_init_def)

lemma row_inv_cancel: "row_inv a b n c i r t \<Longrightarrow> row_inv a b n True i r t"
proof (cases t)
  case RowDone
  assume "row_inv a b n c i r t"
  with RowDone obtain j where "j \<le> n" "\<forall>q<n. r ! q = (if q < j then pdot a b i q n else 0)"
    and "length r = n"
    unfolding row_inv_def by auto
  with RowDone show ?thesis unfolding row_inv_def by (simp del: split_paired_All) blast
qed (simp_all add: row_inv_def)

lemma minv_cancel: "minv a b n c st \<Longrightarrow> minv a b n True st"
  unfolding minv_def using row_inv_cancel by blast

lemma row_inv_step:
  assumes sq: "square n a" "square n b" and inv: "minv a b n c st" and i: "i < n"
  shows "\<exists>st'. multiplyRow_step c a b n i st = Inr st' \<and> minv a b n c st'"
proof (cases "tasks st ! i")
  case (ColCheck j)
  from inv i have ri: "row_inv a b n c i (result st ! i) (ColCheck j)"
    by (simp add: minv_def ColCheck [symmetric])
  show ?thesis
  proof (cases "j < n")
    case True
    show ?thesis
    proof (cases c)
      case True
      with \<open>j < n\<close> ColCheck have "multiplyRow_step c a b n i st = Inr (st\<lparr>tasks := (tasks st)[i := RowDone]\<rparr>)"
        by (simp add: multiplyRow_step_def)
      moreover have "minv a b n c (st\<lparr>tasks := (tasks st)[i := RowDone]\<rparr>)"
        using inv ri i True \<open>j < n\<close> unfolding minv_def
        by (auto simp: nth_list_update row_inv_def intro!: exI [of _ j])
      ultimately show ?thesis by blast
    next
      case False
      with \<open>j < n\<close> ColCheck have "multiplyRow_step c a b n i st = Inr (st\<lparr>tasks := (tasks st)[i := Inner j 0]\<rparr>)"
        by (simp add: multiplyRow_step_def)
      moreover have "minv a b n c (st\<lparr>tasks := (tasks st)[i := Inner j 0]\<rparr>)"
        using inv ri i \<open>j < n\<close> unfolding minv_def
        by (auto simp: nth_list_update row_inv_def pdot_0)
      ultimately show ?thesis by blast
    qed
  next
    case False
    with ColCheck have "multiplyRow_step c a b n i st = Inr (st\<lparr>tasks := (tasks st)[i := RowDone]\<rparr>)"
      by (simp add: multiplyRow_step_def)
    moreover from ri False have "j = n" by (simp add: row_inv_def)
    then have "minv a b n c (st\<lparr>tasks := (tasks st)[i := RowDone]\<rparr>)"
      using inv ri i unfolding minv_def
      by (auto simp: nth_list_update row_inv_def intro!: exI [of _ n])
    ultimately show ?thesis by blast
  qed
next
  case (Inner j k)
  from inv i have ri: "row_inv a b n c i (result st ! i) (Inner j k)"
    by (simp add: minv_def Inner [symmetric])
  then have j: "j < n" and k: "k \<le> n" and len: "length (result st ! i) = n"
    by (simp_all add: row_inv_def)
  from inv have lr: "length (result st) = n" by (simp add: minv_def)
  show ?thesis
  proof (cases "k < n")
    case True
    have ra: "at2 a i k = Some (a ! i ! k)" using sq i True by (simp add: square_at2)
    have rb: "at2 b k j = Some (b ! k ! j)" using sq j True by (simp add: square_at2)
    have rr: "at2 (result st) i j = Some (result st ! i ! j)"
      using lr len i j by (simp add: at2_def)
    let ?st = "st\<lparr>result := (result st)[i := (result st ! i)[j := result st ! i ! j + a ! i ! k * b ! k ! j]],
                    tasks := (tasks st)[i := Inner j (Suc k)]\<rparr>"
    have "multiplyRow_step c a b n i st = Inr ?st"
      using Inner True ra rb rr by (simp add: multiplyRow_step_def)
    moreover have "minv a b n c ?st"
      using inv ri i j True unfolding minv_def
      by (auto simp: nth_list_update row_inv_def pdot_Suc)
    ultimately show ?thesis by blast
  next
    case False
    with k have "k = n" by simp
    from False Inner have "multiplyRow_step c a b n i st = Inr (st\<lparr>tasks := (tasks st)[i := ColCheck (Suc j)]\<rparr>)"
      by (simp add: multiplyRow_step_def)
    moreover have "minv a b n c (st\<lparr>tasks := (tasks st)[i := ColCheck (Suc j)]\<rparr>)"
      using inv ri i j \<open>k = n\<close> unfolding minv_def
      by (auto simp: nth_list_update row_inv_def less_Suc_eq)
    ultimately show ?thesis by blast
  qed
next
  case RowDone
  then have "multiplyRow_step c a b n i st = Inr st"
    by (simp add: multiplyRow_step_def)
  with inv show ?thesis by blast
qed


lemma run_tasks_inv:
  assumes sq: "square n a" "square n b"
  shows "minv a b n c st \<Longrightarrow>
    \<exists>st'. run_tasks a b n es (c, st) = Inr (c \<or> Cancel \<in> set es, st') \<and>
          minv a b n (c \<or> Cancel \<in> set es) st'"
proof (induction es arbitrary: c st)
  case Nil
  then show ?case by simp
next
  case (Cons e es)
  show ?case
  proof (cases e)
    case Cancel
    from Cons.prems have "minv a b n True st" by (rule minv_cancel)
    from Cons.IH [OF this] Cancel show ?thesis by simp
  next
    case (Run i)
    show ?thesis
    proof (cases "i < n")
      case True
      from row_inv_step [OF sq Cons.prems True] obtain st1
        where s1: "multiplyRow_step c a b n i st = Inr st1" and i1: "minv a b n c st1"
        by blast
      from Cons.IH [OF i1] s1 Run True show ?thesis by auto
    next
      case False
      with Cons.IH [OF Cons.prems] Run show ?thesis by auto
    qed
  qed
qed

lemma remaining_0: "remaining n t = 0 \<longleftrightarrow> t = RowDone"
  by (cases t) simp_all

lemma step_tasks_other:
  "multiplyRow_step c a b n i st = Inr st' \<Longrightarrow>
     length (tasks st') = length (tasks st) \<and> (i' \<noteq> i \<longrightarrow> tasks st' ! i' = tasks st ! i')"
  by (auto simp: multiplyRow_step_def split: rowpc.splits if_splits option.splits)

lemma step_tasks_own:
  assumes "multiplyRow_step c a b n i st = Inr st'" "minv a b n c st" "i < n"
  shows "remaining n (tasks st' ! i) \<le> remaining n (tasks st ! i) - 1"
proof (cases "tasks st ! i")
  case (ColCheck j)
  from assms have "row_inv a b n c i (result st ! i) (ColCheck j)" and l: "length (tasks st) = n"
    by (simp_all add: minv_def ColCheck [symmetric])
  then have "j \<le> n" by (simp add: row_inv_def)
  have "j < n \<Longrightarrow> (n - j) * (n + 2) = (n + 2) + (n - Suc j) * (n + 2)"
    by (metis Suc_diff_Suc mult_Suc)
  with assms(1,3) ColCheck l show ?thesis
    by (auto simp: multiplyRow_step_def split: if_splits)
next
  case (Inner j k)
  from assms have "length (tasks st) = n" by (simp add: minv_def)
  with assms(1,3) Inner show ?thesis
    by (auto simp: multiplyRow_step_def split: if_splits option.splits)
next
  case RowDone
  with assms show ?thesis by (simp add: multiplyRow_step_def)
qed

lemma run_tasks_progress:
  assumes sq: "square n a" "square n b"
  shows "minv a b n c st \<Longrightarrow> run_tasks a b n es (c, st) = Inr (c', st') \<Longrightarrow> i < n \<Longrightarrow>
    remaining n (tasks st' ! i) \<le> remaining n (tasks st ! i) - count_list es (Run i)"
proof (induction es arbitrary: c st)
  case Nil
  then show ?case by simp
next
  case (Cons e es)
  show ?case
  proof (cases e)
    case Cancel
    from Cons.prems have "minv a b n True st" by (simp add: minv_cancel)
    from Cons.IH [OF this] Cons.prems Cancel show ?thesis by simp
  next
    case (Run r)
    show ?thesis
    proof (cases "r < n")
      case True
      from row_inv_step [OF sq Cons.prems(1) True] obtain st1
        where s1: "multiplyRow_step c a b n r st = Inr st1" and i1: "minv a b n c st1"
        by blast
      from Cons.prems s1 Run True have "run_tasks a b n es (c, st1) = Inr (c', st')" by simp
      from Cons.IH [OF i1 this \<open>i < n\<close>]
      have ih: "remaining n (tasks st' ! i) \<le> remaining n (tasks st1 ! i) - count_list es (Run i)" .
      show ?thesis
      proof (cases "r = i")
        case True
        with step_tasks_own [OF s1 Cons.prems(1)] \<open>r < n\<close>
        have "remaining n (tasks st1 ! i) \<le> remaining n (tasks st ! i) - 1" by simp
        with ih Run True show ?thesis by simp
      next
        case False
        with step_tasks_other [OF s1, of i] have "tasks st1 ! i = tasks st ! i" by simp
        with ih Run False show ?thesis by simp
      qed
    next
      case False
      with Cons.prems Run have "run_tasks a b n es (c, st) = Inr (c', st')" "r \<noteq> i" by auto
      with Cons.IH [OF Cons.prems(1) _ \<open>i < n\<close>] Run show ?thesis by simp
    qed
  qed
qed


lemma row_as_prefix:
  assumes "length r = n" "j \<le> n" "\<forall>q<n. r ! q = (if q < j then pdot a b i q n else 0)"
  shows "r = product_prefix a b n i j"
proof (rule nth_equalityI)
  show "length r = length (product_prefix a b n i j)"
    using assms by (simp add: product_prefix_def)
next
  fix q assume "q < length r"
  with assms show "r ! q = product_prefix a b n i j ! q"
    by (simp add: product_prefix_def nth_append pdot_def)
qed

lemma run_from_start:
  assumes "square n a" "square n b"
    and "run_tasks a b n es (c0, multiplier_init n) = Inr (c, st)"
  shows "minv a b n c st" and "c = (c0 \<or> Cancel \<in> set es)"
  using run_tasks_inv [OF assms(1,2) minv_init, where c = c0 and es = es] assms(3) by auto

lemma row_with_partial:
  assumes "length r = n" "j < n"
    "\<forall>q<n. r ! q = (if q < j then pdot a b i q n else if q = j then pdot a b i j k else 0)"
  shows "r = (product_prefix a b n i j)[j := (\<Sum>q<k. a ! i ! q * b ! q ! j)]"
proof (rule nth_equalityI)
  show "length r = length ((product_prefix a b n i j)[j := (\<Sum>q<k. a ! i ! q * b ! q ! j)])"
    using assms by (simp add: product_prefix_def)
next
  fix q assume "q < length r"
  with assms show "r ! q = (product_prefix a b n i j)[j := (\<Sum>q<k. a ! i ! q * b ! q ! j)] ! q"
    by (simp add: product_prefix_def nth_append pdot_def nth_list_update)
qed

section \<open>Proofs: the library functions\<close>

lemma takeWhile_neq_less: "c \<in> set s \<Longrightarrow> length (takeWhile (\<lambda>x. x \<noteq> c) s) < length s"
  by (induction s) auto

lemma last_index_byte_Some:
  assumes "last_index_byte s c = Some i"
  shows "i < length s \<and> s ! i = c"
proof -
  let ?k = "length (takeWhile (\<lambda>x. x \<noteq> c) (rev s))"
  from assms have mem: "c \<in> set s" and i: "i = length s - Suc ?k"
    by (auto simp: last_index_byte_def split: if_splits)
  from mem have k: "?k < length s"
    using takeWhile_neq_less [of c "rev s"] by simp
  then have "\<not> (rev s ! ?k \<noteq> c)"
    using nth_length_takeWhile [of "\<lambda>x. x \<noteq> c" "rev s"] by simp
  then have "rev s ! ?k = c" by simp
  with k i show ?thesis by (simp add: rev_nth)
qed

lemma index_byte_Some:
  assumes "index_byte s c = Some e"
  shows "e < length s \<and> s ! e = c"
proof -
  from assms have mem: "c \<in> set s" and e: "e = length (takeWhile (\<lambda>x. x \<noteq> c) s)"
    by (auto simp: index_byte_def split: if_splits)
  from mem have k: "e < length s" unfolding e
    by (rule takeWhile_neq_less)
  then have "\<not> (s ! e \<noteq> c)"
    unfolding e using nth_length_takeWhile [of "\<lambda>x. x \<noteq> c" s] by simp
  with k show ?thesis by simp
qed

lemma split_at: "i < length s \<Longrightarrow> s = take i s @ s ! i # drop (Suc i) s"
  by (simp add: id_take_nth_drop)

lemma SplitHostPort_form:
  assumes "SplitHostPort a = Inr (h, p)"
  shows "a = h @ CHR '':'' # p \<or> a = CHR ''['' # h @ CHR '']'' # CHR '':'' # p"
proof -
  from assms obtain i where li: "last_index_byte a CHR '':'' = Some i"
    by (auto simp: SplitHostPort_def split: option.splits)
  then have i: "i < length a" "a ! i = CHR '':''" using last_index_byte_Some by blast+
  show ?thesis
  proof (cases "hd a = CHR ''[''")
    case False
    with assms li have "h = take i a" "p = drop (Suc i) a"
      by (auto simp: SplitHostPort_def split_tail_def split: if_splits)
    with split_at [OF i(1)] i(2) show ?thesis by simp
  next
    case True
    with assms li obtain e where ei: "index_byte a CHR '']'' = Some e" "Suc e = i"
      and hp: "h = take (e - 1) (drop 1 a)" "p = drop (Suc i) a"
      by (auto simp: SplitHostPort_def split_tail_def split: if_splits option.splits)
    from ei(1) have e: "e < length a" "a ! e = CHR '']''" using index_byte_Some by blast+
    from i(1) have ne: "a \<noteq> []" by auto
    with True have a0: "a ! 0 = CHR ''[''" by (simp add: hd_conv_nth)
    with e(2) have e0: "0 < e" by (cases e) auto
    have "a = take e a @ a ! e # drop (Suc e) a" using e(1) by (rule split_at)
    also have "drop (Suc e) a = a ! i # drop (Suc i) a"
      using i(1) ei(2) by (metis Cons_nth_drop_Suc)
    also have "take e a = a ! 0 # take (e - 1) (drop 1 a)"
      using e0 ne by (cases a; cases e) simp_all
    finally show ?thesis using a0 e(2) i(2) hp by simp
  qed
qed

section \<open>Proofs: the invariants of the server\<close>

lemma sys_inv_init: "sys_inv ver invs init_sys"
  by (simp add: sys_inv_def init_sys_def init_job_def job_inv_def)

lemma square_generateMatrix: "square n (generateMatrix rnd n)"
  by (simp add: square_def generateMatrix_def list_all_length)

lemma job_inv_cancel: "job_inv ver iv c x \<Longrightarrow> job_inv ver iv True x"
  by (cases "pc x") (auto simp: job_inv_def mult_inv_def intro: minv_cancel)

lemma sys_inv_Row:
  assumes "sys_inv ver invs s"
  shows "sys_inv ver invs (sys_step ver invs s (Row j i))"
proof (cases "pc (jobs s j) = Computing \<and> i < nat (matrixSize (jobs s j))")
  case False
  with assms show ?thesis by (auto simp: sys_step_def)
next
  case True
  let ?x = "jobs s j"
  from assms have ji: "job_inv ver (invs j) (j \<in> cancelled s) ?x" and nc: "\<not> crashed s"
    by (simp_all add: sys_inv_def)
  with True have g: "generated (invs j) ?x" and m: "mult_inv (j \<in> cancelled s) ?x"
    and rest: "body ?x = []" "ip ?x = extractIP (remoteAddr (invs j))" "sized ver (invs j) ?x"
    by (simp_all add: job_inv_def)
  from g have sq: "square (nat (matrixSize ?x)) (mat_a ?x)" "square (nat (matrixSize ?x)) (mat_b ?x)"
    by (simp_all add: generated_def) (metis square_generateMatrix)+
  from row_inv_step [OF sq m [unfolded mult_inv_def]] True obtain m' where
    st: "multiplyRow_step (j \<in> cancelled s) (mat_a ?x) (mat_b ?x) (nat (matrixSize ?x)) i (mult ?x) = Inr m'"
    and mi: "minv (mat_a ?x) (mat_b ?x) (nat (matrixSize ?x)) (j \<in> cancelled s) m'"
    by blast
  from True st nc have eq: "sys_step ver invs s (Row j i) = upd_job j (\<lambda>x. x\<lparr>mult := m'\<rparr>) s"
    by (simp add: sys_step_def)
  have "job_inv ver (invs j) (j \<in> cancelled s) (?x\<lparr>mult := m'\<rparr>)"
    using True g rest mi by (simp add: job_inv_def generated_def mult_inv_def sized_def)
  with assms show ?thesis
    unfolding eq by (auto simp: sys_inv_def upd_job_def)
qed


lemma sizing_range: "sizing ver p = Compute n \<Longrightarrow> 1 \<le> n \<and> n \<le> 2000"
  by (cases ver) (auto simp: sizing_def sizing_v2_def sizing_part000_def Let_def split: prod.splits if_splits)


lemma job_inv_mono: "job_inv ver iv c x \<Longrightarrow> (c \<longrightarrow> c') \<Longrightarrow> job_inv ver iv c' x"
  by (cases c; cases c') (auto intro: job_inv_cancel)

lemma sys_invI:
  assumes "sys_inv ver invs s"
    and "crashed s' = crashed s"
    and "\<forall>h. h \<noteq> j \<longrightarrow> jobs s' h = jobs s h"
    and "job_inv ver (invs j) (j \<in> cancelled s') (jobs s' j)"
    and "cancelled s \<subseteq> cancelled s'"
    and "\<forall>h \<in> cancelled s'. registered (pc (jobs s' h))"
    and "\<forall>k h. activeRequests s' k = Some h \<longrightarrow> registered (pc (jobs s' h)) \<and> ip (jobs s' h) = k"
  shows "sys_inv ver invs s'"
proof -
  have "job_inv ver (invs h) (h \<in> cancelled s') (jobs s' h)" for h
  proof (cases "h = j")
    case True
    with assms(4) show ?thesis by simp
  next
    case False
    from assms(1) have "job_inv ver (invs h) (h \<in> cancelled s) (jobs s h)"
      by (simp add: sys_inv_def)
    then have "job_inv ver (invs h) (h \<in> cancelled s') (jobs s h)"
      by (rule job_inv_mono) (use assms(5) in blast)
    with False assms(3) show ?thesis by simp
  qed
  with assms show ?thesis by (simp add: sys_inv_def)
qed

lemmas step_defs = sys_step_def handler_step_def upd_job_def cancelPreviousRequest_def

lemma sys_inv_Main:
  assumes inv: "sys_inv ver invs s"
  shows "sys_inv ver invs (sys_step ver invs s (Main j))"
proof -
  let ?x = "jobs s j"
  let ?s' = "sys_step ver invs s (Main j)"
  from inv have nc: "\<not> crashed s"
    and reg: "\<And>k h. activeRequests s k = Some h \<Longrightarrow> registered (pc (jobs s h)) \<and> ip (jobs s h) = k"
    and can: "\<And>h. h \<in> cancelled s \<Longrightarrow> registered (pc (jobs s h))"
    and ji: "job_inv ver (invs j) (j \<in> cancelled s) ?x"
    by (auto simp: sys_inv_def)
  show ?thesis
  proof (cases "pc ?x")
    case Accepted
    have nj: "j \<notin> cancelled s" using can [of j] Accepted by (auto simp: registered_def)
    have na: "\<And>k. activeRequests s k \<noteq> Some j" using reg [of _ j] Accepted by (auto simp: registered_def)
    show ?thesis
    proof (rule sys_invI [OF inv, where j = j])
      show "crashed ?s' = crashed s" using nc Accepted
        by (simp add: step_defs split: option.splits)
      show "\<forall>h. h \<noteq> j \<longrightarrow> jobs ?s' h = jobs s h" using nc Accepted
        by (simp add: step_defs split: option.splits)
      show "job_inv ver (invs j) (j \<in> cancelled ?s') (jobs ?s' j)" using nc Accepted ji
        by (simp add: step_defs job_inv_def split: option.splits)
      show "cancelled s \<subseteq> cancelled ?s'" using nc Accepted
        by (auto simp add: step_defs split: option.splits)
      show "\<forall>h \<in> cancelled ?s'. registered (pc (jobs ?s' h))" using nc Accepted can reg na nj
        by (auto simp add: step_defs split: option.splits)
      show "\<forall>k h. activeRequests ?s' k = Some h \<longrightarrow> registered (pc (jobs ?s' h)) \<and> ip (jobs ?s' h) = k"
        using nc Accepted reg na
        by (auto simp add: step_defs split: option.splits if_splits)
    qed
  next
    case Superseded
    show ?thesis
    proof (rule sys_invI [OF inv, where j = j])
      show "crashed ?s' = crashed s" using nc Superseded
        by (simp add: step_defs split: path.splits)
      show "\<forall>h. h \<noteq> j \<longrightarrow> jobs ?s' h = jobs s h" using nc Superseded
        by (simp add: step_defs split: path.splits)
      show "job_inv ver (invs j) (j \<in> cancelled ?s') (jobs ?s' j)" using nc Superseded ji
        by (auto simp add: step_defs job_inv_def sized_def generated_def mult_inv_def rows_done_def
            minv_init split: path.splits)
      show "cancelled s \<subseteq> cancelled ?s'" using nc Superseded
        by (auto simp add: step_defs split: path.splits)
      show "\<forall>h \<in> cancelled ?s'. registered (pc (jobs ?s' h))" using nc Superseded can
        by (auto simp add: step_defs registered_def split: path.splits)
      show "\<forall>k h. activeRequests ?s' k = Some h \<longrightarrow> registered (pc (jobs ?s' h)) \<and> ip (jobs ?s' h) = k"
        using nc Superseded reg
        by (auto simp add: step_defs registered_def split: path.splits if_splits)
    qed
  next
    case Registered
    show ?thesis
    proof (rule sys_invI [OF inv, where j = j])
      show "crashed ?s' = crashed s" using nc Registered
        by (simp add: step_defs split: path.splits)
      show "\<forall>h. h \<noteq> j \<longrightarrow> jobs ?s' h = jobs s h" using nc Registered
        by (simp add: step_defs split: path.splits)
      show "job_inv ver (invs j) (j \<in> cancelled ?s') (jobs ?s' j)" using nc Registered ji
        by (auto simp add: step_defs job_inv_def sized_def generated_def mult_inv_def rows_done_def
            minv_init split: path.splits)
      show "cancelled s \<subseteq> cancelled ?s'" using nc Registered
        by (auto simp add: step_defs split: path.splits)
      show "\<forall>h \<in> cancelled ?s'. registered (pc (jobs ?s' h))" using nc Registered can
        by (auto simp add: step_defs registered_def split: path.splits)
      show "\<forall>k h. activeRequests ?s' k = Some h \<longrightarrow> registered (pc (jobs ?s' h)) \<and> ip (jobs ?s' h) = k"
        using nc Registered reg
        by (auto simp add: step_defs registered_def split: path.splits if_splits)
    qed
  next
    case AwaitCancel
    show ?thesis
    proof (rule sys_invI [OF inv, where j = j])
      show "crashed ?s' = crashed s" using nc AwaitCancel
        by (simp add: step_defs split: path.splits)
      show "\<forall>h. h \<noteq> j \<longrightarrow> jobs ?s' h = jobs s h" using nc AwaitCancel
        by (simp add: step_defs split: path.splits)
      show "job_inv ver (invs j) (j \<in> cancelled ?s') (jobs ?s' j)" using nc AwaitCancel ji
        by (auto simp add: step_defs job_inv_def sized_def generated_def mult_inv_def rows_done_def
            minv_init split: path.splits)
      show "cancelled s \<subseteq> cancelled ?s'" using nc AwaitCancel
        by (auto simp add: step_defs split: path.splits)
      show "\<forall>h \<in> cancelled ?s'. registered (pc (jobs ?s' h))" using nc AwaitCancel can
        by (auto simp add: step_defs registered_def split: path.splits)
      show "\<forall>k h. activeRequests ?s' k = Some h \<longrightarrow> registered (pc (jobs ?s' h)) \<and> ip (jobs ?s' h) = k"
        using nc AwaitCancel reg
        by (auto simp add: step_defs registered_def split: path.splits if_splits)
    qed
  next
    case Sized
    show ?thesis
    proof (rule sys_invI [OF inv, where j = j])
      show "crashed ?s' = crashed s" using nc Sized
        by (simp add: step_defs split: path.splits)
      show "\<forall>h. h \<noteq> j \<longrightarrow> jobs ?s' h = jobs s h" using nc Sized
        by (simp add: step_defs split: path.splits)
      show "job_inv ver (invs j) (j \<in> cancelled ?s') (jobs ?s' j)" using nc Sized ji
        by (auto simp add: step_defs job_inv_def sized_def generated_def mult_inv_def rows_done_def
            minv_init split: path.splits)
      show "cancelled s \<subseteq> cancelled ?s'" using nc Sized
        by (auto simp add: step_defs split: path.splits)
      show "\<forall>h \<in> cancelled ?s'. registered (pc (jobs ?s' h))" using nc Sized can
        by (auto simp add: step_defs registered_def split: path.splits)
      show "\<forall>k h. activeRequests ?s' k = Some h \<longrightarrow> registered (pc (jobs ?s' h)) \<and> ip (jobs ?s' h) = k"
        using nc Sized reg
        by (auto simp add: step_defs registered_def split: path.splits if_splits)
    qed
  next
    case Computing
    show ?thesis
    proof (rule sys_invI [OF inv, where j = j])
      show "crashed ?s' = crashed s" using nc Computing
        by (simp add: step_defs split: path.splits)
      show "\<forall>h. h \<noteq> j \<longrightarrow> jobs ?s' h = jobs s h" using nc Computing
        by (simp add: step_defs split: path.splits)
      show "job_inv ver (invs j) (j \<in> cancelled ?s') (jobs ?s' j)" using nc Computing ji
        by (auto simp add: step_defs job_inv_def sized_def generated_def mult_inv_def rows_done_def
            minv_init split: path.splits)
      show "cancelled s \<subseteq> cancelled ?s'" using nc Computing
        by (auto simp add: step_defs split: path.splits)
      show "\<forall>h \<in> cancelled ?s'. registered (pc (jobs ?s' h))" using nc Computing can
        by (auto simp add: step_defs registered_def split: path.splits)
      show "\<forall>k h. activeRequests ?s' k = Some h \<longrightarrow> registered (pc (jobs ?s' h)) \<and> ip (jobs ?s' h) = k"
        using nc Computing reg
        by (auto simp add: step_defs registered_def split: path.splits if_splits)
    qed
  next
    case Reporting
    show ?thesis
    proof (rule sys_invI [OF inv, where j = j])
      show "crashed ?s' = crashed s" using nc Reporting
        by (simp add: step_defs split: path.splits)
      show "\<forall>h. h \<noteq> j \<longrightarrow> jobs ?s' h = jobs s h" using nc Reporting
        by (simp add: step_defs split: path.splits)
      show "job_inv ver (invs j) (j \<in> cancelled ?s') (jobs ?s' j)" using nc Reporting ji
        by (auto simp add: step_defs job_inv_def sized_def generated_def mult_inv_def rows_done_def
            minv_init split: path.splits)
      show "cancelled s \<subseteq> cancelled ?s'" using nc Reporting
        by (auto simp add: step_defs split: path.splits)
      show "\<forall>h \<in> cancelled ?s'. registered (pc (jobs ?s' h))" using nc Reporting can
        by (auto simp add: step_defs registered_def split: path.splits)
      show "\<forall>k h. activeRequests ?s' k = Some h \<longrightarrow> registered (pc (jobs ?s' h)) \<and> ip (jobs ?s' h) = k"
        using nc Reporting reg
        by (auto simp add: step_defs registered_def split: path.splits if_splits)
    qed
  next
    case Writing
    show ?thesis
    proof (rule sys_invI [OF inv, where j = j])
      show "crashed ?s' = crashed s" using nc Writing
        by (simp add: step_defs split: path.splits)
      show "\<forall>h. h \<noteq> j \<longrightarrow> jobs ?s' h = jobs s h" using nc Writing
        by (simp add: step_defs split: path.splits)
      show "job_inv ver (invs j) (j \<in> cancelled ?s') (jobs ?s' j)" using nc Writing ji
        by (auto simp add: step_defs job_inv_def sized_def generated_def mult_inv_def rows_done_def
            minv_init split: path.splits)
      show "cancelled s \<subseteq> cancelled ?s'" using nc Writing
        by (auto simp add: step_defs split: path.splits)
      show "\<forall>h \<in> cancelled ?s'. registered (pc (jobs ?s' h))" using nc Writing can
        by (auto simp add: step_defs registered_def split: path.splits)
      show "\<forall>k h. activeRequests ?s' k = Some h \<longrightarrow> registered (pc (jobs ?s' h)) \<and> ip (jobs ?s' h) = k"
        using nc Writing reg
        by (auto simp add: step_defs registered_def split: path.splits if_splits)
    qed
  next
    case Finished
    then show ?thesis using inv nc by (simp add: sys_step_def handler_step_def)
  qed
qed

lemma sys_inv_step: "sys_inv ver invs s \<Longrightarrow> sys_inv ver invs (sys_step ver invs s e)"
  by (cases e) (simp_all add: sys_inv_Main sys_inv_Row)

lemma sys_inv_exec: "sys_inv ver invs s \<Longrightarrow> sys_inv ver invs (exec ver invs s es)"
  unfolding exec_def by (induction es arbitrary: s) (simp_all add: sys_inv_step)

lemma sys_inv_reachable: "sys_inv ver invs (exec ver invs init_sys es)"
  by (simp add: sys_inv_exec sys_inv_init)

subsection \<open>What a step changes\<close>

lemma ip_key:
  assumes "sys_inv ver invs s" "pc (jobs s j) \<noteq> Accepted"
  shows "ip (jobs s j) = key_of invs j"
proof -
  from assms(1) have "job_inv ver (invs j) (j \<in> cancelled s) (jobs s j)"
    by (simp add: sys_inv_def)
  with assms(2) show ?thesis
    by (cases "pc (jobs s j)") (simp_all add: job_inv_def key_of_def)
qed

lemma registry_key:
  assumes "sys_inv ver invs s" "activeRequests s k = Some h"
  shows "key_of invs h = k \<and> registered (pc (jobs s h))"
proof -
  from assms have r: "registered (pc (jobs s h))" "ip (jobs s h) = k"
    by (auto simp: sys_inv_def)
  then have "pc (jobs s h) \<noteq> Accepted" by (simp add: registered_def)
  from ip_key [OF assms(1) this] r show ?thesis by simp
qed

lemma Main_other_job: "j' \<noteq> j \<Longrightarrow> jobs (sys_step ver invs s (Main j')) j = jobs s j"
  by (simp add: step_defs split: hpc.splits path.splits option.splits)

lemma Row_same_pc:
  "pc (jobs (sys_step ver invs s (Row j' i)) j) = pc (jobs s j) \<and>
   body (jobs (sys_step ver invs s (Row j' i)) j) = body (jobs s j)"
  by (simp add: step_defs split: sum.splits)

lemma Row_shared:
  "cancelled (sys_step ver invs s (Row j i)) = cancelled s \<and>
   activeRequests (sys_step ver invs s (Row j i)) = activeRequests s"
  by (simp add: step_defs split: sum.splits)

lemma Main_cancelled:
  assumes "\<not> crashed s"
  shows "cancelled (sys_step ver invs s (Main j)) =
     (if pc (jobs s j) = Accepted
      then (case activeRequests s (key_of invs j) of
              None \<Rightarrow> cancelled s | Some h \<Rightarrow> insert h (cancelled s))
      else cancelled s)"
  using assms by (simp add: step_defs key_of_def split: hpc.splits path.splits option.splits)

lemma Main_registry:
  assumes "sys_inv ver invs s"
  shows "activeRequests (sys_step ver invs s (Main j)) =
     (if pc (jobs s j) = Accepted then (activeRequests s)(key_of invs j := None)
      else if pc (jobs s j) = Superseded then (activeRequests s)(key_of invs j \<mapsto> j)
      else activeRequests s)"
proof -
  from assms have nc: "\<not> crashed s" by (simp add: sys_inv_def)
  have "pc (jobs s j) = Superseded \<Longrightarrow> ip (jobs s j) = key_of invs j"
    using ip_key [OF assms, of j] by simp
  with nc show ?thesis
    by (auto simp add: step_defs key_of_def split: hpc.splits path.splits option.splits)
qed

lemma step_cancelled_mono: "h \<in> cancelled s \<Longrightarrow> h \<in> cancelled (sys_step ver invs s e)"
  by (cases e) (auto simp add: step_defs split: hpc.splits path.splits option.splits sum.splits)

lemma exec_Nil: "exec ver invs s [] = s"
  by (simp add: exec_def)

lemma exec_Cons: "exec ver invs s (e # es) = exec ver invs (sys_step ver invs s e) es"
  by (simp add: exec_def)

lemma exec_append: "exec ver invs s (es @ es') = exec ver invs (exec ver invs s es) es'"
  by (simp add: exec_def)

lemma exec_cancelled_mono: "h \<in> cancelled s \<Longrightarrow> h \<in> cancelled (exec ver invs s es)"
  by (induction es arbitrary: s) (simp_all add: exec_Nil exec_Cons step_cancelled_mono)

lemma Finished_stays: "pc (jobs s j) = Finished \<Longrightarrow> jobs (sys_step ver invs s e) j = jobs s j"
proof (cases e)
  case (Main j')
  assume "pc (jobs s j) = Finished"
  then show ?thesis
    by (cases "j' = j") (simp_all add: Main Main_other_job, simp add: step_defs)
next
  case (Row j' i)
  assume "pc (jobs s j) = Finished"
  then show ?thesis by (auto simp add: Row step_defs split: sum.splits)
qed

lemma Finished_exec: "pc (jobs s j) = Finished \<Longrightarrow> jobs (exec ver invs s es) j = jobs s j"
  by (induction es arbitrary: s) (simp_all add: exec_Nil exec_Cons Finished_stays)

subsection \<open>The response\<close>

lemma digit_char_no_newline: "0 \<le> d \<Longrightarrow> d < 10 \<Longrightarrow> digit_char d \<noteq> CHR ''\<newline>''"
proof -
  assume "0 \<le> d" "d < 10"
  then have "nat d < length ''0123456789''" by simp
  then have "''0123456789'' ! nat d \<in> set ''0123456789''" by (rule nth_mem)
  moreover have "CHR ''\<newline>'' \<notin> set ''0123456789''" by simp
  ultimately show ?thesis unfolding digit_char_def by metis
qed

lemma show_nat_no_newline: "0 \<le> n \<Longrightarrow> CHR ''\<newline>'' \<notin> set (show_nat n)"
proof (induction n rule: show_nat.induct)
  case (1 n)
  show ?case
  proof (cases "n < 10")
    case True
    with "1.prems" show ?thesis
      using digit_char_no_newline [of n] by (subst show_nat.simps) auto
  next
    case False
    then have "0 \<le> n div 10" by simp
    with "1.IH" False have "CHR ''\<newline>'' \<notin> set (show_nat (n div 10))" by simp
    moreover have "digit_char (n mod 10) \<noteq> CHR ''\<newline>''"
      by (rule digit_char_no_newline) simp_all
    ultimately show ?thesis using False by (subst show_nat.simps) auto
  qed
qed

lemma show_int_no_newline: "CHR ''\<newline>'' \<notin> set (show_int i)"
  by (simp add: show_int_def show_nat_no_newline)

lemma join_space_no_newline:
  "\<forall>x \<in> set xs. CHR ''\<newline>'' \<notin> set x \<Longrightarrow> CHR ''\<newline>'' \<notin> set (join_space xs)"
  by (induction xs rule: join_space.induct) auto

lemma show_row_no_newline: "CHR ''\<newline>'' \<notin> set (show_row r)"
proof -
  have "CHR ''\<newline>'' \<notin> set (join_space (map (\<lambda>x. show_int (sint x)) r))"
    by (rule join_space_no_newline) (simp add: show_int_no_newline)
  then show ?thesis by (simp add: show_row_def)
qed

lemma header_line_no_newline: "CHR ''\<newline>'' \<notin> set (header_line n ms)"
  by (simp add: header_line_def show_int_no_newline)

lemma success_body_lines:
  "success_body n ms r = unlines (header_line n ms # ''Resulting Matrix:'' # map show_row r)"
  by (simp add: success_body_def unlines_def header_line_def comp_def)

lemma done_rows_product:
  assumes "minv a b n False st" "list_all (\<lambda>t. t = RowDone) (tasks st)"
  shows "result st = matrix_product a b n"
proof (rule nth_equalityI)
  from assms(1) show "length (result st) = length (matrix_product a b n)"
    by (simp add: minv_def matrix_product_def)
next
  fix i assume "i < length (result st)"
  with assms(1) have i: "i < n" and len: "length (tasks st) = n"
    and ri: "row_inv a b n False i (result st ! i) (tasks st ! i)"
    by (simp_all add: minv_def)
  from assms(2) i len have "tasks st ! i = RowDone" by (simp add: list_all_length)
  with ri have "length (result st ! i) = n"
    "\<forall>q<n. result st ! i ! q = (if q < n then pdot a b i q n else 0)"
    by (auto simp: row_inv_def)
  then have "result st ! i = product_prefix a b n i n"
    by (intro row_as_prefix) simp_all
  with i show "result st ! i = matrix_product a b n ! i"
    by (simp add: matrix_product_def)
qed

lemma square_matrix_product: "square n (matrix_product a b n)"
  by (simp add: square_def matrix_product_def product_prefix_def list_all_length)

subsection \<open>A call whose context is cancelled before its last check\<close>

lemma cancelled_compute_step:
  assumes "j \<in> cancelled s"
    and "((pc (jobs s j) = Computing \<or> pc (jobs s j) = Reporting) \<and> body (jobs s j) = []) \<or>
         (pc (jobs s j) = Finished \<and> body (jobs s j) = cancelled_body)"
  shows "((pc (jobs (sys_step ver invs s e) j) = Computing \<or>
           pc (jobs (sys_step ver invs s e) j) = Reporting) \<and>
          body (jobs (sys_step ver invs s e) j) = []) \<or>
         (pc (jobs (sys_step ver invs s e) j) = Finished \<and>
          body (jobs (sys_step ver invs s e) j) = cancelled_body)"
proof (cases e)
  case (Row j' i)
  with assms(2) show ?thesis by (simp add: Row_same_pc)
next
  case (Main j')
  show ?thesis
  proof (cases "j' = j")
    case False
    with assms(2) Main show ?thesis by (simp add: Main_other_job)
  next
    case True
    with assms Main show ?thesis
      by (auto simp add: step_defs)
  qed
qed

lemma cancelled_compute_exec:
  assumes "j \<in> cancelled s"
    and "((pc (jobs s j) = Computing \<or> pc (jobs s j) = Reporting) \<and> body (jobs s j) = []) \<or>
         (pc (jobs s j) = Finished \<and> body (jobs s j) = cancelled_body)"
  shows "((pc (jobs (exec ver invs s es) j) = Computing \<or>
           pc (jobs (exec ver invs s es) j) = Reporting) \<and>
          body (jobs (exec ver invs s es) j) = []) \<or>
         (pc (jobs (exec ver invs s es) j) = Finished \<and>
          body (jobs (exec ver invs s es) j) = cancelled_body)"
  using assms
proof (induction es arbitrary: s)
  case Nil
  then show ?case by (simp add: exec_Nil)
next
  case (Cons e es)
  from Cons.prems(1) have "j \<in> cancelled (sys_step ver invs s e)" by (rule step_cancelled_mono)
  moreover note cancelled_compute_step [OF Cons.prems, of ver invs e]
  ultimately show ?case unfolding exec_Cons by (rule Cons.IH)
qed

lemma reachable_body:
  assumes "pc (jobs (exec ver invs init_sys evs) j) \<noteq> Finished"
  shows "body (jobs (exec ver invs init_sys evs) j) = []"
proof -
  let ?s = "exec ver invs init_sys evs"
  have "job_inv ver (invs j) (j \<in> cancelled ?s) (jobs ?s j)"
    using sys_inv_reachable [of ver invs evs] by (simp add: sys_inv_def)
  with assms show ?thesis by (cases "pc (jobs ?s j)") (simp_all add: job_inv_def)
qed

lemma reachable_job_inv:
  "job_inv ver (invs j) (j \<in> cancelled (exec ver invs init_sys evs)) (jobs (exec ver invs init_sys evs) j)"
  using sys_inv_reachable [of ver invs evs] by (simp add: sys_inv_def)

lemma success_shape:
  assumes "sized ver iv x" "generated iv x" "rows_done x" "mult_inv False x"
  shows "\<exists>N. sizing ver (sizeParam iv) = Compute N \<and> 1 \<le> N \<and> N \<le> 2000 \<and> matrixSize x = N \<and>
     result (mult x) = matrix_product (generateMatrix (randA iv) (nat N))
                          (generateMatrix (randB iv) (nat N)) (nat N)"
proof -
  from assms(1) have s: "sizing ver (sizeParam iv) = Compute (matrixSize x)" by (simp add: sized_def)
  from sizing_range [OF s] have r: "1 \<le> matrixSize x \<and> matrixSize x \<le> 2000" .
  from assms(3,4) have "result (mult x) = matrix_product (mat_a x) (mat_b x) (nat (matrixSize x))"
    unfolding rows_done_def mult_inv_def by (rule done_rows_product [rotated])
  with assms(2) s r show ?thesis by (simp add: generated_def)
qed

lemma other_key_untouched:
  assumes inv: "sys_inv ver invs t" and k: "key_of invs j' \<noteq> key_of invs j"
  shows "(j \<in> cancelled (sys_step ver invs t (Main j')) \<longleftrightarrow> j \<in> cancelled t) \<and>
         activeRequests (sys_step ver invs t (Main j')) (key_of invs j) = activeRequests t (key_of invs j)"
proof -
  from inv have nc: "\<not> crashed t" by (simp add: sys_inv_def)
  have "h \<noteq> j" if "activeRequests t (key_of invs j') = Some h" for h
    using registry_key [OF inv that] k by auto
  then have "j \<in> cancelled (sys_step ver invs t (Main j')) \<longleftrightarrow> j \<in> cancelled t"
    by (auto simp add: Main_cancelled [OF nc] split: option.splits)
  moreover have "activeRequests (sys_step ver invs t (Main j')) (key_of invs j)
      = activeRequests t (key_of invs j)"
    using k by (simp add: Main_registry [OF inv])
  ultimately show ?thesis by simp
qed

subsection \<open>The size\<close>

lemma sizing_v2_default:
  "snd (Atoi p) \<noteq> None \<or> fst (Atoi p) \<le> 0 \<Longrightarrow> sizing_v2 p = Compute 100"
  by (auto simp: sizing_v2_def Let_def split: prod.splits)

lemma sizing_part000_default:
  "snd (Atoi p) \<noteq> None \<or> fst (Atoi p) \<le> 0 \<Longrightarrow> fst (Atoi p) \<le> 2000 \<Longrightarrow>
     sizing_part000 p = Compute 100"
  by (auto simp: sizing_part000_def Let_def split: prod.splits)

lemma sizing_parsed_oversize:
  "Atoi p = (n, None) \<Longrightarrow> 2000 < n \<Longrightarrow> sizing ver p = Oversize"
  by (cases ver) (simp_all add: sizing_def sizing_v2_def sizing_part000_def)

lemma Atoi_syntax_zero: "snd (Atoi p) = Some ErrSyntax \<Longrightarrow> fst (Atoi p) = 0"
  by (auto simp: Atoi_def Let_def split: list.splits sum.splits num_error.splits if_splits)

subsection \<open>Who changes an entry, and who cancels a context\<close>

lemma registry_change:
  assumes inv: "sys_inv ver invs s" and a: "activeRequests s k = Some j"
    and ch: "activeRequests (sys_step ver invs s e) k \<noteq> Some j"
  shows "\<exists>j'. e = Main j' \<and> j' \<noteq> j \<and> key_of invs j' = k \<and>
              (pc (jobs s j') = Accepted \<or> pc (jobs s j') = Superseded)"
proof (cases e)
  case (Row j' i)
  with a ch show ?thesis by (simp add: Row_shared)
next
  case (Main j')
  from registry_key [OF inv a] have rj: "registered (pc (jobs s j))" by simp
  from ch a Main have c: "(pc (jobs s j') = Accepted \<or> pc (jobs s j') = Superseded) \<and>
      key_of invs j' = k"
    by (auto simp add: Main_registry [OF inv] split: if_splits)
  moreover from c rj have "j' \<noteq> j" by (auto simp: registered_def)
  ultimately show ?thesis using Main by simp
qed

lemma cancel_cause:
  assumes inv: "sys_inv ver invs s" and n: "j \<notin> cancelled s"
    and c: "j \<in> cancelled (sys_step ver invs s e)"
  shows "\<exists>j'. e = Main j' \<and> j' \<noteq> j \<and> key_of invs j' = key_of invs j \<and>
              pc (jobs s j') = Accepted \<and> activeRequests s (key_of invs j) = Some j"
proof (cases e)
  case (Row j' i)
  with n c show ?thesis by (simp add: Row_shared)
next
  case (Main j')
  from inv have nc: "\<not> crashed s" by (simp add: sys_inv_def)
  from n c Main have p: "pc (jobs s j') = Accepted" and a: "activeRequests s (key_of invs j') = Some j"
    by (auto simp add: Main_cancelled [OF nc] split: if_splits option.splits)
  from registry_key [OF inv a] have k: "key_of invs j = key_of invs j'"
    and "registered (pc (jobs s j))" by simp_all
  with p have "j' \<noteq> j" by (auto simp: registered_def)
  with p a k Main show ?thesis by simp
qed

lemma entry_stays:
  assumes "sys_inv ver invs s" and "activeRequests s k = Some j"
    and "\<forall>j'. Main j' \<in> set es \<longrightarrow> j' = j \<or> key_of invs j' \<noteq> k"
  shows "activeRequests (exec ver invs s es) k = Some j \<and>
         (j \<in> cancelled (exec ver invs s es) \<longleftrightarrow> j \<in> cancelled s)"
  using assms
proof (induction es arbitrary: s)
  case Nil
  then show ?case by (simp add: exec_Nil)
next
  case (Cons e es)
  let ?s' = "sys_step ver invs s e"
  have ok: "\<not> (\<exists>j'. e = Main j' \<and> j' \<noteq> j \<and> key_of invs j' = k)"
    using Cons.prems(3) by auto
  from registry_key [OF Cons.prems(1,2)] have kj: "key_of invs j = k" by simp
  have a: "activeRequests ?s' k = Some j"
    using registry_change [OF Cons.prems(1,2), of e] ok by blast
  have c: "j \<in> cancelled ?s' \<longleftrightarrow> j \<in> cancelled s"
    using cancel_cause [OF Cons.prems(1), of j e] ok kj step_cancelled_mono [of j s ver invs e]
    by blast
  have i: "sys_inv ver invs ?s'" using Cons.prems(1) by (rule sys_inv_step)
  from Cons.prems(3) have r: "\<forall>j'. Main j' \<in> set es \<longrightarrow> j' = j \<or> key_of invs j' \<noteq> k" by simp
  from Cons.IH [OF i a r] c show ?case by (simp add: exec_Cons)
qed

subsection \<open>A call in the oversize wait\<close>

lemma waiting_inv_step:
  assumes "sizing ver (sizeParam (invs j)) = Oversize" and "waiting_inv j s"
  shows "waiting_inv j (sys_step ver invs s e)"
proof (cases e)
  case (Row j' i)
  have "jobs (sys_step ver invs s (Row j' i)) j = jobs s j"
    using assms(2) by (auto simp: waiting_inv_def step_defs split: sum.splits)
  with assms(2) Row show ?thesis by (simp add: waiting_inv_def Row_shared)
next
  case (Main j')
  show ?thesis
  proof (cases "j' = j")
    case False
    with assms(2) Main show ?thesis
      using step_cancelled_mono [of j s ver invs e]
      by (auto simp add: waiting_inv_def Main_other_job)
  next
    case True
    from assms(2) have nc: "never_computed (jobs s j)" by (simp add: waiting_inv_def)
    consider "pc (jobs s j) = Accepted" "body (jobs s j) = []"
      | "pc (jobs s j) = Superseded" "body (jobs s j) = []"
      | "pc (jobs s j) = Registered" "body (jobs s j) = []"
      | "pc (jobs s j) = AwaitCancel" "body (jobs s j) = []"
      | "pc (jobs s j) = Finished" "body (jobs s j) = oversize_body" "j \<in> cancelled s"
      using assms(2) by (auto simp: waiting_inv_def)
    then show ?thesis
    proof cases
      case 1
      with nc show ?thesis unfolding Main True
        by (simp add: waiting_inv_def never_computed_def step_defs split: option.splits)
    next
      case 2
      with nc show ?thesis unfolding Main True
        by (simp add: waiting_inv_def never_computed_def step_defs)
    next
      case 3
      with nc assms(1) show ?thesis unfolding Main True
        by (simp add: waiting_inv_def never_computed_def step_defs)
    next
      case 4
      with nc show ?thesis unfolding Main True
        by (simp add: waiting_inv_def never_computed_def step_defs)
    next
      case 5
      with nc show ?thesis unfolding Main True
        by (simp add: waiting_inv_def never_computed_def step_defs)
    qed
  qed
qed

lemma waiting_inv_reachable:
  assumes "sizing ver (sizeParam (invs j)) = Oversize"
  shows "waiting_inv j (exec ver invs init_sys es)"
proof -
  have "waiting_inv j s \<Longrightarrow> waiting_inv j (exec ver invs s es)" for s
    by (induction es arbitrary: s) (simp_all add: exec_Nil exec_Cons waiting_inv_step [where ver = ver and invs = invs and j = j, OF assms])
  moreover have "waiting_inv j init_sys"
    by (simp add: waiting_inv_def never_computed_def init_sys_def init_job_def)
  ultimately show ?thesis by blast
qed

lemma Accepted_back:
  "pc (jobs (sys_step ver invs s e) j) = Accepted \<Longrightarrow> pc (jobs s j) = Accepted"
proof (cases e)
  case (Row j' i)
  assume "pc (jobs (sys_step ver invs s e) j) = Accepted"
  with Row show ?thesis by (simp add: Row_same_pc)
next
  case (Main j')
  assume a: "pc (jobs (sys_step ver invs s e) j) = Accepted"
  show ?thesis
  proof (cases "j' = j")
    case False
    with a Main show ?thesis by (simp add: Main_other_job)
  next
    case True
    with a Main show ?thesis
      by (cases "pc (jobs s j)")
        (simp_all add: step_defs split: if_splits path.splits option.splits)
  qed
qed

lemma not_cancelled_without_newcomer:
  assumes "sys_inv ver invs s" and "j \<notin> cancelled s"
    and "\<forall>j'. j' \<noteq> j \<and> key_of invs j' = key_of invs j \<and> pc (jobs s j') = Accepted
           \<longrightarrow> Main j' \<notin> set es"
  shows "j \<notin> cancelled (exec ver invs s es)"
  using assms
proof (induction es arbitrary: s)
  case Nil
  then show ?case by (simp add: exec_Nil)
next
  case (Cons e es)
  let ?s' = "sys_step ver invs s e"
  have a: "j \<notin> cancelled ?s'"
  proof
    assume "j \<in> cancelled ?s'"
    from cancel_cause [OF Cons.prems(1,2) this] obtain j' where
      "e = Main j'" "j' \<noteq> j" "key_of invs j' = key_of invs j" "pc (jobs s j') = Accepted"
      by blast
    with Cons.prems(3) show False by auto
  qed
  have b: "sys_inv ver invs ?s'" using Cons.prems(1) by (rule sys_inv_step)
  have c: "\<forall>j'. j' \<noteq> j \<and> key_of invs j' = key_of invs j \<and> pc (jobs ?s' j') = Accepted
           \<longrightarrow> Main j' \<notin> set es"
    using Cons.prems(3) Accepted_back [of ver invs s e] by auto
  from Cons.IH [OF b a c] show ?case by (simp add: exec_Cons)
qed

subsection \<open>A call cancelled before its last check\<close>

lemma doomed_step:
  assumes "doomed ver invs j s"
  shows "doomed ver invs j (sys_step ver invs s e)"
proof (cases e)
  case (Row j' i)
  with assms show ?thesis by (simp add: doomed_def Row_same_pc Row_shared)
next
  case (Main j')
  from assms have c: "j \<in> cancelled (sys_step ver invs s e)"
    by (simp add: doomed_def step_cancelled_mono)
  show ?thesis
  proof (cases "j' = j")
    case False
    with assms c Main show ?thesis by (simp add: doomed_def Main_other_job)
  next
    case True
    from assms have cj: "j \<in> cancelled s" by (simp add: doomed_def)
    consider "pc (jobs s j) = Registered" "body (jobs s j) = []"
      | "pc (jobs s j) = AwaitCancel" "body (jobs s j) = []"
      | "pc (jobs s j) = Sized" "body (jobs s j) = []"
      | "pc (jobs s j) = Computing" "body (jobs s j) = []"
      | "pc (jobs s j) = Reporting" "body (jobs s j) = []"
      | "pc (jobs s j) = Finished" "body (jobs s j) = cancelled_body \<or> body (jobs s j) = oversize_body \<or>
          body (jobs s j) = store_failed_body \<and> ver = V2 \<and> storeFails (invs j)"
      using assms by (auto simp: doomed_def)
    then show ?thesis
    proof cases
      case 1
      with cj show ?thesis unfolding Main True
        by (simp add: doomed_def step_defs split: path.splits)
    next
      case 2
      with cj show ?thesis unfolding Main True by (simp add: doomed_def step_defs)
    next
      case 3
      with cj show ?thesis unfolding Main True by (simp add: doomed_def step_defs)
    next
      case 4
      with cj show ?thesis unfolding Main True by (simp add: doomed_def step_defs)
    next
      case 5
      with cj show ?thesis unfolding Main True by (simp add: doomed_def step_defs)
    next
      case 6
      with cj show ?thesis unfolding Main True by (simp add: doomed_def step_defs)
    qed
  qed
qed

lemma doomed_exec: "doomed ver invs j s \<Longrightarrow> doomed ver invs j (exec ver invs s es)"
  by (induction es arbitrary: s) (simp_all add: exec_Nil exec_Cons doomed_step)

lemma success_body_distinct:
  "success_body n ms r \<noteq> cancelled_body" "success_body n ms r \<noteq> oversize_body"
  "success_body n ms r \<noteq> store_failed_body"
  by (simp_all add: success_body_def cancelled_body_def oversize_body_def store_failed_body_def)

lemma finished_bodies:
  assumes "pc (jobs (exec ver invs init_sys evs) j) = Finished"
  shows "body (jobs (exec ver invs init_sys evs) j) = cancelled_body \<or>
         body (jobs (exec ver invs init_sys evs) j) = oversize_body \<or>
         body (jobs (exec ver invs init_sys evs) j) = store_failed_body \<or>
         (\<exists>N R. body (jobs (exec ver invs init_sys evs) j) = success_body N (elapsedMillis (invs j)) R)"
  using reachable_job_inv [of ver invs j evs] assms by (auto simp: job_inv_def)

subsection \<open>The way into the oversize wait\<close>

lemma wait_rank_step:
  assumes ov: "sizing ver (sizeParam (invs j)) = Oversize" and w: "waiting_inv j s"
  shows "wait_rank (pc (jobs s j)) \<le> wait_rank (pc (jobs (sys_step ver invs s e) j))"
    and "\<not> crashed s \<Longrightarrow> e = Main j \<Longrightarrow>
         min 3 (Suc (wait_rank (pc (jobs s j)))) \<le> wait_rank (pc (jobs (sys_step ver invs s e) j))"
    and "\<not> crashed s \<Longrightarrow> e = Main j \<Longrightarrow> j \<in> cancelled s \<Longrightarrow>
         min 4 (Suc (wait_rank (pc (jobs s j)))) \<le> wait_rank (pc (jobs (sys_step ver invs s e) j))"
proof -
  consider "pc (jobs s j) = Accepted" | "pc (jobs s j) = Superseded" | "pc (jobs s j) = Registered"
    | "pc (jobs s j) = AwaitCancel" | "pc (jobs s j) = Finished"
    using w by (auto simp: waiting_inv_def)
  note cases5 = this
  have own: "wait_rank (pc (jobs s j)) \<le> wait_rank (pc (jobs (sys_step ver invs s (Main j)) j))"
    using cases5 ov by cases (simp_all add: step_defs)
  show "wait_rank (pc (jobs s j)) \<le> wait_rank (pc (jobs (sys_step ver invs s e) j))"
  proof (cases e)
    case (Row j' i)
    then show ?thesis by (simp add: Row_same_pc)
  next
    case (Main j')
    with own show ?thesis by (cases "j' = j") (simp_all add: Main_other_job)
  qed
  show "min 3 (Suc (wait_rank (pc (jobs s j)))) \<le> wait_rank (pc (jobs (sys_step ver invs s e) j))"
    if "\<not> crashed s" "e = Main j"
    using cases5 that ov by cases (simp_all add: step_defs)
  show "min 4 (Suc (wait_rank (pc (jobs s j)))) \<le> wait_rank (pc (jobs (sys_step ver invs s e) j))"
    if "\<not> crashed s" "e = Main j" "j \<in> cancelled s"
    using cases5 that ov by cases (simp_all add: step_defs)
qed

lemma wait_rank_exec:
  assumes ov: "sizing ver (sizeParam (invs j)) = Oversize"
  shows "sys_inv ver invs s \<Longrightarrow> waiting_inv j s \<Longrightarrow>
     min 3 (wait_rank (pc (jobs s j)) + count_list es (Main j))
       \<le> wait_rank (pc (jobs (exec ver invs s es) j))"
proof (induction es arbitrary: s)
  case Nil
  then show ?case by (simp add: exec_Nil)
next
  case (Cons e es)
  let ?s' = "sys_step ver invs s e"
  from Cons.prems have nc: "\<not> crashed s" by (simp add: sys_inv_def)
  have i: "sys_inv ver invs ?s'" using Cons.prems(1) by (rule sys_inv_step)
  have w: "waiting_inv j ?s'"
    using waiting_inv_step [where ver = ver and invs = invs and j = j, OF ov Cons.prems(2)] .
  note ih = Cons.IH [OF i w]
  note st = wait_rank_step [where ver = ver and invs = invs and j = j and e = e, OF ov Cons.prems(2)]
  show ?case
  proof (cases "e = Main j")
    case True
    from st(2) [OF nc True] ih True show ?thesis
      by (simp add: exec_Cons min_def split: if_splits)
  next
    case False
    with st(1) ih show ?thesis
      by (simp add: exec_Cons min_def split: if_splits)
  qed
qed

lemma wait_rank_exec_cancelled:
  assumes ov: "sizing ver (sizeParam (invs j)) = Oversize"
  shows "sys_inv ver invs s \<Longrightarrow> waiting_inv j s \<Longrightarrow> j \<in> cancelled s \<Longrightarrow>
     min 4 (wait_rank (pc (jobs s j)) + count_list es (Main j))
       \<le> wait_rank (pc (jobs (exec ver invs s es) j))"
proof (induction es arbitrary: s)
  case Nil
  then show ?case by (simp add: exec_Nil)
next
  case (Cons e es)
  let ?s' = "sys_step ver invs s e"
  from Cons.prems have nc: "\<not> crashed s" by (simp add: sys_inv_def)
  have i: "sys_inv ver invs ?s'" using Cons.prems(1) by (rule sys_inv_step)
  have w: "waiting_inv j ?s'"
    using waiting_inv_step [where ver = ver and invs = invs and j = j, OF ov Cons.prems(2)] .
  have c: "j \<in> cancelled ?s'" using Cons.prems(3) by (rule step_cancelled_mono)
  note ih = Cons.IH [OF i w c]
  note st = wait_rank_step [where ver = ver and invs = invs and j = j and e = e, OF ov Cons.prems(2)]
  show ?case
  proof (cases "e = Main j")
    case True
    from st(3) [OF nc True Cons.prems(3)] ih True show ?thesis
      by (simp add: exec_Cons min_def split: if_splits)
  next
    case False
    with st(1) ih show ?thesis
      by (simp add: exec_Cons min_def split: if_splits)
  qed
qed

lemma wait_rank_3: "3 \<le> wait_rank p \<Longrightarrow> p = AwaitCancel \<or> p = Finished"
  by (cases p) simp_all

lemma wait_rank_4: "4 \<le> wait_rank p \<Longrightarrow> p = Finished"
  by (cases p) simp_all

subsection \<open>The entry of a cancelled call\<close>

lemma entries_live_init: "entries_live init_sys"
  by (simp add: entries_live_def init_sys_def)

lemma entries_live_step:
  assumes inv: "sys_inv ver invs s" and l: "entries_live s"
  shows "entries_live (sys_step ver invs s e)"
proof (cases e)
  case (Row j' i)
  with l show ?thesis by (simp add: entries_live_def Row_shared)
next
  case (Main j')
  from inv have nc: "\<not> crashed s" by (simp add: sys_inv_def)
  let ?key = "key_of invs j'"
  consider (acc) "pc (jobs s j') = Accepted" | (sup) "pc (jobs s j') = Superseded"
    | (oth) "pc (jobs s j') \<noteq> Accepted" "pc (jobs s j') \<noteq> Superseded" by blast
  then show ?thesis
  proof cases
    case acc
    show ?thesis unfolding entries_live_def
    proof (intro allI impI)
      fix k j
      assume a: "activeRequests (sys_step ver invs s e) k = Some j"
      with acc Main have kk: "k \<noteq> ?key" and old: "activeRequests s k = Some j"
        by (auto simp add: Main_registry [OF inv] split: if_splits)
      from l old have nj: "j \<notin> cancelled s" by (simp add: entries_live_def)
      have "activeRequests s ?key \<noteq> Some j"
      proof
        assume "activeRequests s ?key = Some j"
        from registry_key [OF inv this] registry_key [OF inv old] kk show False by simp
      qed
      with nj acc Main show "j \<notin> cancelled (sys_step ver invs s e)"
        by (auto simp add: Main_cancelled [OF nc] split: option.splits)
    qed
  next
    case sup
    from inv sup have nj': "j' \<notin> cancelled s"
      by (auto simp: sys_inv_def registered_def)
    from sup Main have c: "cancelled (sys_step ver invs s e) = cancelled s"
      by (simp add: Main_cancelled [OF nc])
    show ?thesis unfolding entries_live_def c
    proof (intro allI impI)
      fix k j
      assume "activeRequests (sys_step ver invs s e) k = Some j"
      with sup Main have "(k = ?key \<and> j = j') \<or> activeRequests s k = Some j"
        by (auto simp add: Main_registry [OF inv] split: if_splits)
      with nj' l show "j \<notin> cancelled s" by (auto simp: entries_live_def)
    qed
  next
    case oth
    with Main have "cancelled (sys_step ver invs s e) = cancelled s"
      and "activeRequests (sys_step ver invs s e) = activeRequests s"
      by (simp_all add: Main_cancelled [OF nc] Main_registry [OF inv])
    with l show ?thesis by (simp add: entries_live_def)
  qed
qed

lemma entries_live_exec:
  "sys_inv ver invs s \<Longrightarrow> entries_live s \<Longrightarrow> entries_live (exec ver invs s es)"
  by (induction es arbitrary: s) (simp_all add: exec_Nil exec_Cons entries_live_step sys_inv_step)

lemma entries_live_reachable: "entries_live (exec ver invs init_sys es)"
  by (rule entries_live_exec [OF sys_inv_init entries_live_init])

lemma reported_cancel_is_cancelled:
  assumes "pc (jobs (exec ver invs init_sys evs) j) = Finished"
    and "body (jobs (exec ver invs init_sys evs) j) = cancelled_body \<or>
         body (jobs (exec ver invs init_sys evs) j) = oversize_body"
  shows "j \<in> cancelled (exec ver invs init_sys evs)"
  using reachable_job_inv [of ver invs j evs] assms success_body_distinct
  by (auto simp: job_inv_def cancelled_body_def oversize_body_def store_failed_body_def)

lemma own_step_shared:
  assumes inv: "sys_inv ver invs s" and "registered (pc (jobs s j))"
  shows "activeRequests (sys_step ver invs s (Main j)) = activeRequests s \<and>
         cancelled (sys_step ver invs s (Main j)) = cancelled s"
proof -
  from inv have nc: "\<not> crashed s" by (simp add: sys_inv_def)
  from assms(2) show ?thesis
    by (simp add: Main_cancelled [OF nc] Main_registry [OF inv] registered_def)
qed

subsection \<open>The format of a row\<close>

lemma digit_char_digit:
  assumes "0 \<le> d" "d < 10"
  shows "is_digit (digit_char d) \<and> digit_of (digit_char d) = d"
proof -
  from assms have "d = 0 \<or> d = 1 \<or> d = 2 \<or> d = 3 \<or> d = 4 \<or> d = 5 \<or> d = 6 \<or> d = 7 \<or>
      d = 8 \<or> d = 9" by arith
  then show ?thesis
    by (elim disjE) (simp_all add: digit_char_def is_digit_def digit_of_def)
qed

lemma digits_value_snoc:
  "digits_value a (xs @ [c]) =
     (case digits_value a xs of
        None \<Rightarrow> None
      | Some v \<Rightarrow> if is_digit c then Some (10 * v + digit_of c) else None)"
  by (induction xs arbitrary: a) simp_all

lemma show_nat_value:
  "0 \<le> n \<Longrightarrow> digits_value 0 (show_nat n) = Some n \<and> list_all is_digit (show_nat n) \<and>
     show_nat n \<noteq> []"
proof (induction n rule: show_nat.induct)
  case (1 n)
  show ?case
  proof (cases "n < 10")
    case True
    with "1.prems" digit_char_digit [of n] show ?thesis
      by (subst (1 2 3) show_nat.simps) simp
  next
    case False
    then have "0 \<le> n div 10" by simp
    with "1.IH" False have ih: "digits_value 0 (show_nat (n div 10)) = Some (n div 10)"
      "list_all is_digit (show_nat (n div 10))" by simp_all
    have d: "is_digit (digit_char (n mod 10)) \<and> digit_of (digit_char (n mod 10)) = n mod 10"
      by (rule digit_char_digit) simp_all
    from False have e: "show_nat n = show_nat (n div 10) @ [digit_char (n mod 10)]"
      by (subst show_nat.simps) simp
    from ih d show ?thesis unfolding e by (simp add: digits_value_snoc)
  qed
qed

lemma decimal_value_show_int: "decimal_value (show_int i) = Some i"
proof (cases "i < 0")
  case True
  then have "0 \<le> - i" by simp
  from show_nat_value [OF this] True show ?thesis
    by (simp add: show_int_def decimal_value_def)
next
  case False
  then have "0 \<le> i" by simp
  from show_nat_value [OF this] obtain c cs where s: "show_nat i = c # cs" and c: "is_digit c"
    and v: "digits_value 0 (show_nat i) = Some i"
    by (cases "show_nat i") auto
  from c have "c \<noteq> CHR ''-''" by (auto simp: is_digit_def)
  with s v False show ?thesis by (simp add: show_int_def decimal_value_def)
qed

lemma show_int_no_space: "CHR '' '' \<notin> set (show_int i)"
proof -
  have n: "\<not> is_digit CHR '' ''" by (simp add: is_digit_def)
  have "CHR '' '' \<notin> set (show_nat n)" if "0 \<le> n" for n
    using show_nat_value [OF that] n by (auto simp: list_all_iff)
  then show ?thesis by (simp add: show_int_def)
qed

lemma join_space_separated: "join_space ws = space_separated ws"
  by (induction ws rule: join_space.induct) (simp_all add: space_separated_def)

lemma show_row_bracketed:
  "show_row r = bracketed (space_separated (map (\<lambda>x. show_int (sint x)) r))"
  by (simp add: show_row_def bracketed_def join_space_separated)

section \<open>The claims about the multiplier\<close>

text \<open>
  Claim C1. For \<open>N\<close> by \<open>N\<close> matrices \<open>a\<close> and \<open>b\<close> and every interleaving of the row
  goroutines in which the cancellation signal never fires, \<open>multiplyMatricesParallel\<close> does
  not panic, and the matrix it returns is \<open>N\<close> by \<open>N\<close> with
  \<open>R[i][j] = \<Sum>k. a[i][k] * b[k][j]\<close> in the wrapping arithmetic of the machine integers.
  It does return: \<open>wg.Wait()\<close> is over once every row's goroutine has been scheduled
  \<open>N * (N + 2) + 1\<close> times.
\<close>

theorem multiplyMatricesParallel_product:
  assumes "0 \<le> sz" and "square (nat sz) a" and "square (nat sz) b" and "Cancel \<notin> set sched"
  shows "(\<forall>p. multiplyMatricesParallel sched False a b sz \<noteq> Panicked p) \<and>
    (\<forall>R. multiplyMatricesParallel sched False a b sz = Returned R \<longrightarrow>
       square (nat sz) R \<and>
       (\<forall>i<nat sz. \<forall>j<nat sz. R ! i ! j = (\<Sum>k<nat sz. a ! i ! k * b ! k ! j))) \<and>
    ((\<forall>i<nat sz. nat sz * (nat sz + 2) + 1 \<le> count_list sched (Run i)) \<longrightarrow>
       (\<exists>R. multiplyMatricesParallel sched False a b sz = Returned R))"
proof -
  let ?n = "nat sz"
  let ?init = "multiplier_init ?n :: 'a word mstate"
  from run_tasks_inv [OF assms(2,3) minv_init, where c = False and es = sched] assms(4)
  obtain st where run: "run_tasks a b ?n sched (False, ?init) = Inr (False, st)"
    and inv: "minv a b ?n False st"
    by auto
  have out: "multiplyMatricesParallel sched False a b sz =
      (if list_all (\<lambda>t. t = RowDone) (tasks st) then Returned (result st) else Blocked)"
    using assms(1) run by (simp add: multiplyMatricesParallel_def)
  have np: "\<forall>p. multiplyMatricesParallel sched False a b sz \<noteq> Panicked p"
    by (simp add: out)
  have correct: "square ?n R \<and> (\<forall>i<?n. \<forall>j<?n. R ! i ! j = (\<Sum>k<?n. a ! i ! k * b ! k ! j))"
    if ret: "multiplyMatricesParallel sched False a b sz = Returned R" for R
  proof -
    from ret out have fin: "list_all (\<lambda>t. t = RowDone) (tasks st)" and R: "R = result st"
      by (auto split: if_splits)
    have rows: "row_inv a b ?n False i (result st ! i) RowDone" if "i < ?n" for i
    proof -
      from inv that have "tasks st ! i = RowDone"
        using fin by (simp add: minv_def list_all_length)
      with inv that show ?thesis by (auto simp: minv_def)
    qed
    have full: "length (result st ! i) = ?n \<and> (\<forall>q<?n. result st ! i ! q = pdot a b i q ?n)"
      if "i < ?n" for i
      using rows [OF that] by (auto simp: row_inv_def)
    from inv have "length (result st) = ?n" by (simp add: minv_def)
    with full show ?thesis
      by (simp add: R square_def list_all_length pdot_def)
  qed
  have live: "\<exists>R. multiplyMatricesParallel sched False a b sz = Returned R"
    if enough: "\<forall>i<?n. ?n * (?n + 2) + 1 \<le> count_list sched (Run i)"
  proof -
    have "tasks st ! i = RowDone" if "i < ?n" for i
    proof -
      from run_tasks_progress [OF assms(2,3) minv_init run that]
      have "remaining ?n (tasks st ! i) \<le> remaining ?n (ColCheck 0) - count_list sched (Run i)"
        using that by (simp add: multiplier_init_def)
      with enough that have "remaining ?n (tasks st ! i) = 0" by simp
      then show ?thesis by (simp add: remaining_0)
    qed
    moreover from inv have "length (tasks st) = ?n" by (simp add: minv_def)
    ultimately have "list_all (\<lambda>t. t = RowDone) (tasks st)"
      by (simp add: list_all_length)
    with out show ?thesis by simp
  qed
  from np correct live show ?thesis by blast
qed

text \<open>
  The theorem at two 2 by 2 matrices and an interleaving of the two goroutines.
\<close>

theorem multiplyMatricesParallel_product_witness:
  "(0::int) \<le> 2 \<and> square 2 [[1, 2], [3, 4 :: 64 word]] \<and> square 2 [[5, 6], [7, 8 :: 64 word]] \<and>
   Cancel \<notin> set [Run 1, Run 0, Run 0, Run 1, Run 1, Run 1, Run 0, Run 0, Run 0,
                   Run 1, Run 0, Run 1, Run 0, Run 1, Run 0, Run 1, Run 0, Run 1] \<and>
   9 \<le> count_list [Run 1, Run 0, Run 0, Run 1, Run 1, Run 1, Run 0, Run 0, Run 0,
                      Run 1, Run 0, Run 1, Run 0, Run 1, Run 0, Run 1, Run 0, Run 1] (Run 0) \<and>
   9 \<le> count_list [Run 1, Run 0, Run 0, Run 1, Run 1, Run 1, Run 0, Run 0, Run 0,
                      Run 1, Run 0, Run 1, Run 0, Run 1, Run 0, Run 1, Run 0, Run 1] (Run 1) \<and>
   (\<exists>R. multiplyMatricesParallel
     [Run 1, Run 0, Run 0, Run 1, Run 1, Run 1, Run 0, Run 0, Run 0,
      Run 1, Run 0, Run 1, Run 0, Run 1, Run 0, Run 1, Run 0, Run 1] False
     [[1, 2], [3, 4]] [[5, 6], [7, 8 :: 64 word]] 2 = Returned R) \<and>
   multiplyMatricesParallel
     [Run 1, Run 0, Run 0, Run 1, Run 1, Run 1, Run 0, Run 0, Run 0,
      Run 1, Run 0, Run 1, Run 0, Run 1, Run 0, Run 1, Run 0, Run 1] False
     [[1, 2], [3, 4]] [[5, 6], [7, 8 :: 64 word]] 2 = Returned [[19, 22], [43, 50]] \<and>
   [[19, 22], [43, 50 :: 64 word]] ! 1 ! 0
     = (\<Sum>k<2. [[1, 2], [3, 4 :: 64 word]] ! 1 ! k * [[5, 6], [7, 8]] ! k ! 0)"
proof -
  let ?a = "[[1, 2], [3, 4 :: 64 word]]" and ?b = "[[5, 6], [7, 8 :: 64 word]]"
  let ?es = "[Run 1, Run 0, Run 0, Run 1, Run 1, Run 1, Run 0, Run 0, Run 0,
              Run 1, Run 0, Run 1, Run 0, Run 1, Run 0, Run 1, Run 0, Run 1]"
  have h1: "(0::int) \<le> 2" by simp
  have h2: "square (nat 2) ?a" and h3: "square (nat 2) ?b" by (simp_all add: square_def)
  have h4: "Cancel \<notin> set ?es" by simp
  have c0: "9 \<le> count_list ?es (Run 0)" and c1: "9 \<le> count_list ?es (Run 1)" by simp_all
  have "i = 0 \<or> i = 1" if "i < nat 2" for i :: nat using that by auto
  with c0 c1 have cnt: "\<forall>i<nat 2. nat 2 * (nat 2 + 2) + 1 \<le> count_list ?es (Run i)"
    by auto
  from multiplyMatricesParallel_product [OF h1 h2 h3 h4] cnt
  have ex: "\<exists>R. multiplyMatricesParallel ?es False ?a ?b 2 = Returned R"
    by blast
  have r: "multiplyMatricesParallel ?es False ?a ?b 2 = Returned [[19, 22], [43, 50]]"
    by code_simp
  from multiplyMatricesParallel_product [OF h1 h2 h3 h4] r
  have "\<forall>i<nat 2. \<forall>j<nat 2. [[19, 22], [43, 50 :: 64 word]] ! i ! j = (\<Sum>k<nat 2. ?a ! i ! k * ?b ! k ! j)"
    by blast
  then have cell: "[[19, 22], [43, 50 :: 64 word]] ! i ! j = (\<Sum>k<2. ?a ! i ! k * ?b ! k ! j)"
    if "i < 2" "j < 2" for i j
    using that by simp
  have "[[19, 22], [43, 50 :: 64 word]] ! 1 ! 0 = (\<Sum>k<2. ?a ! 1 ! k * ?b ! k ! 0)"
    by (rule cell) simp_all
  with h1 h2 h3 h4 c0 c1 ex r show ?thesis by simp
qed

text \<open>
  Claim C7. In every state a call of \<open>multiplyMatricesParallel\<close> on \<open>N\<close> by \<open>N\<close> matrices
  can reach, whatever the interleaving and whenever the signal fires, the goroutine of a
  row is in one of the following situations.
  \<^item> At the head of its loop for a column \<open>j < N\<close>: it has computed the columns before
    \<open>j\<close> of its row in full and left the others at zero; its next step reads the signal,
    and ends the goroutine without touching \<open>result\<close> if it has fired, and otherwise
    enters the inner loop of column \<open>j\<close>.
  \<^item> At the head of its loop past the last column: the row is the product's row, and the
    next step ends the goroutine.
  \<^item> Inside the inner loop of a column \<open>j < N\<close> at \<open>k\<close>: the columns before \<open>j\<close> are
    computed, column \<open>j\<close> holds the sum of its first \<open>k\<close> terms, the rest is zero. The
    signal is not read here: for \<open>k < N\<close> the next step adds one term, and at \<open>k = N\<close> it
    goes to the head of the loop for column \<open>j + 1\<close>, that is to the check before that
    column.
  \<^item> Ended: the row is the product's row up to some column \<open>j\<close> and zero from there on,
    and \<open>j < N\<close> only if the signal has fired.

  A step that leaves the goroutine at the start of the inner loop of a column is always
  the check before that column, made while the signal had not fired: every column is
  computed after exactly one check.
\<close>

theorem multiplyRow_stops_at_cancellation:
  assumes "square n a" and "square n b"
    and "run_tasks a b n es (c0, multiplier_init n)
           = Inr (c, st)"
    and "row < n"
  shows "(\<forall>j. tasks st ! row = ColCheck j \<and> j < n \<longrightarrow>
            result st ! row = product_prefix a b n row j \<and>
            multiplyRow_step True a b n row st = Inr (st\<lparr>tasks := (tasks st)[row := RowDone]\<rparr>) \<and>
            multiplyRow_step False a b n row st = Inr (st\<lparr>tasks := (tasks st)[row := Inner j 0]\<rparr>)) \<and>
         (\<forall>j k. tasks st ! row = Inner j k \<longrightarrow>
            multiplyRow_step True a b n row st = multiplyRow_step False a b n row st) \<and>
         (tasks st ! row = RowDone \<longrightarrow>
            (\<exists>j\<le>n. result st ! row = product_prefix a b n row j \<and> (j < n \<longrightarrow> c))) \<and>
         (\<forall>j f. tasks st ! row = ColCheck j \<and> \<not> j < n \<longrightarrow>
            j = n \<and> result st ! row = product_prefix a b n row n \<and>
            multiplyRow_step f a b n row st = Inr (st\<lparr>tasks := (tasks st)[row := RowDone]\<rparr>)) \<and>
         (\<forall>j k. tasks st ! row = Inner j k \<longrightarrow>
            j < n \<and> k \<le> n \<and>
            result st ! row = (product_prefix a b n row j)[j := (\<Sum>q<k. a ! row ! q * b ! q ! j)]) \<and>
         (\<forall>j k f. tasks st ! row = Inner j k \<and> k < n \<longrightarrow>
            multiplyRow_step f a b n row st =
              Inr (st\<lparr>result := (result st)[row := (result st ! row)
                                [j := result st ! row ! j + a ! row ! k * b ! k ! j]],
                      tasks := (tasks st)[row := Inner j (Suc k)]\<rparr>)) \<and>
         (\<forall>j k f. tasks st ! row = Inner j k \<and> \<not> k < n \<longrightarrow>
            multiplyRow_step f a b n row st
              = Inr (st\<lparr>tasks := (tasks st)[row := ColCheck (Suc j)]\<rparr>)) \<and>
         (\<forall>j f st'. multiplyRow_step f a b n row st = Inr st' \<and> tasks st' ! row = Inner j 0 \<longrightarrow>
            tasks st ! row = ColCheck j \<and> j < n \<and> \<not> f)"
proof -
  from run_from_start [OF assms(1-3)] have inv: "minv a b n c st" by simp
  with assms(4) have ri: "row_inv a b n c row (result st ! row) (tasks st ! row)"
    and lt: "length (tasks st) = n" and lr: "length (result st) = n"
    by (simp_all add: minv_def)
  have A: "result st ! row = product_prefix a b n row j \<and>
            multiplyRow_step True a b n row st = Inr (st\<lparr>tasks := (tasks st)[row := RowDone]\<rparr>) \<and>
            multiplyRow_step False a b n row st = Inr (st\<lparr>tasks := (tasks st)[row := Inner j 0]\<rparr>)"
    if "tasks st ! row = ColCheck j" "j < n" for j
  proof -
    from ri that have "result st ! row = product_prefix a b n row j"
      by (intro row_as_prefix) (simp_all add: row_inv_def)
    with that show ?thesis by (simp add: multiplyRow_step_def)
  qed
  have B: "multiplyRow_step True a b n row st = multiplyRow_step False a b n row st"
    if "tasks st ! row = Inner j k" for j k
    using that by (simp add: multiplyRow_step_def)
  have C: "\<exists>j\<le>n. result st ! row = product_prefix a b n row j \<and> (j < n \<longrightarrow> c)"
    if "tasks st ! row = RowDone"
  proof -
    from ri that obtain j where j: "j \<le> n" "j < n \<longrightarrow> c" "length (result st ! row) = n"
      "\<forall>q<n. result st ! row ! q = (if q < j then pdot a b row q n else 0)"
      by (auto simp: row_inv_def)
    from row_as_prefix [OF j(3,1,4)] j(1,2) show ?thesis by blast
  qed
  have D: "j = n \<and> result st ! row = product_prefix a b n row n \<and>
            multiplyRow_step f a b n row st = Inr (st\<lparr>tasks := (tasks st)[row := RowDone]\<rparr>)"
    if "tasks st ! row = ColCheck j \<and> \<not> j < n" for j f
  proof -
    from ri that have jn: "j = n" by (simp add: row_inv_def)
    from ri that jn have "result st ! row = product_prefix a b n row n"
      by (intro row_as_prefix) (simp_all add: row_inv_def)
    with that jn show ?thesis by (simp add: multiplyRow_step_def)
  qed
  have E: "j < n \<and> k \<le> n \<and>
            result st ! row = (product_prefix a b n row j)[j := (\<Sum>q<k. a ! row ! q * b ! q ! j)]"
    if "tasks st ! row = Inner j k" for j k
  proof -
    from ri that have "j < n" "k \<le> n" "length (result st ! row) = n"
      "\<forall>q<n. result st ! row ! q =
         (if q < j then pdot a b row q n else if q = j then pdot a b row j k else 0)"
      by (simp_all add: row_inv_def)
    with row_with_partial [of "result st ! row" n j a b row k] show ?thesis by simp
  qed
  have F: "multiplyRow_step f a b n row st =
              Inr (st\<lparr>result := (result st)[row := (result st ! row)
                                [j := result st ! row ! j + a ! row ! k * b ! k ! j]],
                      tasks := (tasks st)[row := Inner j (Suc k)]\<rparr>)"
    if h: "tasks st ! row = Inner j k \<and> k < n" for j k f
  proof -
    from E [of j k] h have j: "j < n" by simp
    from ri h have len: "length (result st ! row) = n" by (simp add: row_inv_def)
    have ra: "at2 a row k = Some (a ! row ! k)" using assms(1,4) h by (simp add: square_at2)
    have rb: "at2 b k j = Some (b ! k ! j)" using assms(2) j h by (simp add: square_at2)
    have rr: "at2 (result st) row j = Some (result st ! row ! j)"
      using lr len assms(4) j by (simp add: at2_def)
    from h ra rb rr show ?thesis by (simp add: multiplyRow_step_def)
  qed
  have G: "multiplyRow_step f a b n row st
              = Inr (st\<lparr>tasks := (tasks st)[row := ColCheck (Suc j)]\<rparr>)"
    if "tasks st ! row = Inner j k \<and> \<not> k < n" for j k f
    using that by (simp add: multiplyRow_step_def)
  have H: "tasks st ! row = ColCheck j \<and> j < n \<and> \<not> f"
    if h: "multiplyRow_step f a b n row st = Inr st' \<and> tasks st' ! row = Inner j 0" for j f st'
  proof (cases "tasks st ! row")
    case (ColCheck j')
    with h lt assms(4) show ?thesis
      by (auto simp: multiplyRow_step_def split: if_splits)
  next
    case (Inner j' k')
    show ?thesis
    proof (cases "k' < n")
      case True
      with F [of j' k' f] Inner h lt assms(4) show ?thesis by auto
    next
      case False
      with G [of j' k' f] Inner h lt assms(4) show ?thesis by auto
    qed
  next
    case RowDone
    with h show ?thesis by (auto simp: multiplyRow_step_def)
  qed
  from A B C D E F G H show ?thesis by blast
qed

text \<open>
  The theorem on 2 by 2 matrices. Row 0 has finished column 0 when the signal fires, and
  ends at its next check with \<open>[19, 0]\<close> (it would enter column 1 had the signal not
  fired); row 1 is inside column 0, adds its terms, goes from the end of column 0 to the
  check before column 1, and ends there with \<open>[43, 0]\<close>. A row that has finished both
  columns ends at the head of the loop.
\<close>

theorem multiplyRow_stops_at_cancellation_witness:
  "square 2 [[1, 2], [3, 4 :: 64 word]] \<and> square 2 [[5, 6], [7, 8 :: 64 word]] \<and> (0::nat) < 2 \<and>
   run_tasks [[1, 2], [3, 4]] [[5, 6], [7, 8 :: 64 word]] 2
       [Run 0, Run 0, Run 1, Run 0, Run 0] (False, multiplier_init 2)
     = Inr (False, \<lparr>result = [[19, 0], [0, 0]], tasks = [ColCheck 1, Inner 0 0]\<rparr>) \<and>
   [19, 0] = product_prefix [[1, 2], [3, 4]] [[5, 6], [7, 8 :: 64 word]] 2 0 1 \<and>
   multiplyRow_step True [[1, 2], [3, 4]] [[5, 6], [7, 8 :: 64 word]] 2 0
       \<lparr>result = [[19, 0], [0, 0]], tasks = [ColCheck 1, Inner 0 0]\<rparr>
     = Inr \<lparr>result = [[19, 0], [0, 0]], tasks = [RowDone, Inner 0 0]\<rparr> \<and>
   multiplyRow_step False [[1, 2], [3, 4]] [[5, 6], [7, 8 :: 64 word]] 2 0
       \<lparr>result = [[19, 0], [0, 0]], tasks = [ColCheck 1, Inner 0 0]\<rparr>
     = Inr \<lparr>result = [[19, 0], [0, 0]], tasks = [Inner 1 0, Inner 0 0]\<rparr> \<and>
   multiplyRow_step True [[1, 2], [3, 4]] [[5, 6], [7, 8 :: 64 word]] 2 1
       \<lparr>result = [[19, 0], [0, 0]], tasks = [ColCheck 1, Inner 0 0]\<rparr>
     = multiplyRow_step False [[1, 2], [3, 4]] [[5, 6], [7, 8 :: 64 word]] 2 1
       \<lparr>result = [[19, 0], [0, 0]], tasks = [ColCheck 1, Inner 0 0]\<rparr> \<and>
   multiplyRow_step True [[1, 2], [3, 4]] [[5, 6], [7, 8 :: 64 word]] 2 1
       \<lparr>result = [[19, 0], [0, 0]], tasks = [ColCheck 1, Inner 0 0]\<rparr>
     = Inr \<lparr>result = [[19, 0], [15, 0]], tasks = [ColCheck 1, Inner 0 1]\<rparr> \<and>
   run_tasks [[1, 2], [3, 4]] [[5, 6], [7, 8 :: 64 word]] 2
       [Run 1, Run 1, Run 1] (False, multiplier_init 2)
     = Inr (False, \<lparr>result = [[0, 0], [43, 0]], tasks = [ColCheck 0, Inner 0 2]\<rparr>) \<and>
   multiplyRow_step False [[1, 2], [3, 4]] [[5, 6], [7, 8 :: 64 word]] 2 1
       \<lparr>result = [[0, 0], [43, 0]], tasks = [ColCheck 0, Inner 0 2]\<rparr>
     = Inr \<lparr>result = [[0, 0], [43, 0]], tasks = [ColCheck 0, ColCheck 1]\<rparr> \<and>
   run_tasks [[1, 2], [3, 4]] [[5, 6], [7, 8 :: 64 word]] 2
       [Run 0, Run 0, Run 0, Run 0, Run 0, Run 0, Run 0, Run 0] (False, multiplier_init 2)
     = Inr (False, \<lparr>result = [[19, 22], [0, 0]], tasks = [ColCheck 2, ColCheck 0]\<rparr>) \<and>
   multiplyRow_step False [[1, 2], [3, 4]] [[5, 6], [7, 8 :: 64 word]] 2 0
       \<lparr>result = [[19, 22], [0, 0]], tasks = [ColCheck 2, ColCheck 0]\<rparr>
     = Inr \<lparr>result = [[19, 22], [0, 0]], tasks = [RowDone, ColCheck 0]\<rparr> \<and>
   run_tasks [[1, 2], [3, 4]] [[5, 6], [7, 8 :: 64 word]] 2
       [Run 0, Run 0, Run 1, Run 0, Run 0, Cancel, Run 0, Run 1, Run 1, Run 1, Run 1]
       (False, multiplier_init 2)
     = Inr (True, \<lparr>result = [[19, 0], [43, 0]], tasks = [RowDone, RowDone]\<rparr>) \<and>
   (\<exists>j\<le>2. [43, 0] = product_prefix [[1, 2], [3, 4]] [[5, 6], [7, 8 :: 64 word]] 2 1 j)"
proof -
  let ?a = "[[1, 2], [3, 4 :: 64 word]]" and ?b = "[[5, 6], [7, 8 :: 64 word]]"
  let ?st1 = "\<lparr>result = [[19, 0], [0, 0 :: 64 word]], tasks = [ColCheck 1, Inner 0 0]\<rparr>"
  let ?st2 = "\<lparr>result = [[19, 0], [43, 0 :: 64 word]], tasks = [RowDone, RowDone]\<rparr>"
  let ?st3 = "\<lparr>result = [[0, 0], [43, 0 :: 64 word]], tasks = [ColCheck 0, Inner 0 2]\<rparr>"
  let ?st4 = "\<lparr>result = [[19, 22], [0, 0 :: 64 word]], tasks = [ColCheck 2, ColCheck 0]\<rparr>"
  have h1: "square 2 ?a" and h2: "square 2 ?b" by (simp_all add: square_def)
  have r1: "run_tasks ?a ?b 2 [Run 0, Run 0, Run 1, Run 0, Run 0] (False, multiplier_init 2)
      = Inr (False, ?st1)"
    by code_simp
  have r2: "run_tasks ?a ?b 2
      [Run 0, Run 0, Run 1, Run 0, Run 0, Cancel, Run 0, Run 1, Run 1, Run 1, Run 1]
      (False, multiplier_init 2) = Inr (True, ?st2)"
    by code_simp
  have r3: "run_tasks ?a ?b 2 [Run 1, Run 1, Run 1] (False, multiplier_init 2) = Inr (False, ?st3)"
    by code_simp
  have r4: "run_tasks ?a ?b 2 [Run 0, Run 0, Run 0, Run 0, Run 0, Run 0, Run 0, Run 0]
      (False, multiplier_init 2) = Inr (False, ?st4)"
    by code_simp
  have z: "(0::nat) < 2" and o: "(1::nat) < 2" by simp_all
  note at10 = multiplyRow_stops_at_cancellation [OF h1 h2 r1 z]
  note at11 = multiplyRow_stops_at_cancellation [OF h1 h2 r1 o]
  note at21 = multiplyRow_stops_at_cancellation [OF h1 h2 r2 o]
  note at31 = multiplyRow_stops_at_cancellation [OF h1 h2 r3 o]
  note at40 = multiplyRow_stops_at_cancellation [OF h1 h2 r4 z]
  have t1: "tasks ?st1 ! 0 = ColCheck 1 \<and> (1::nat) < 2" by simp
  note A = at10 [THEN conjunct1, rule_format, OF t1]
  from A [THEN conjunct1] have A1: "[19, 0] = product_prefix ?a ?b 2 0 1" by simp
  from A [THEN conjunct2, THEN conjunct1] have A2: "multiplyRow_step True ?a ?b 2 0 ?st1
      = Inr \<lparr>result = [[19, 0], [0, 0]], tasks = [RowDone, Inner 0 0]\<rparr>"
    by simp
  from A [THEN conjunct2, THEN conjunct2] have A3: "multiplyRow_step False ?a ?b 2 0 ?st1
      = Inr \<lparr>result = [[19, 0], [0, 0]], tasks = [Inner 1 0, Inner 0 0]\<rparr>"
    by simp
  have t3: "tasks ?st1 ! 1 = Inner 0 0" by simp
  note I = at11 [THEN conjunct2, THEN conjunct1, rule_format, OF t3]
  have t3': "tasks ?st1 ! 1 = Inner 0 0 \<and> (0::nat) < 2" by simp
  from at11 [THEN conjunct2, THEN conjunct2, THEN conjunct2, THEN conjunct2, THEN conjunct2,
      THEN conjunct1, rule_format, OF t3', of True]
  have F: "multiplyRow_step True ?a ?b 2 1 ?st1
      = Inr \<lparr>result = [[19, 0], [15, 0]], tasks = [ColCheck 1, Inner 0 1]\<rparr>"
    by simp
  have t4: "tasks ?st3 ! 1 = Inner 0 2 \<and> \<not> (2::nat) < 2" by simp
  from at31 [THEN conjunct2, THEN conjunct2, THEN conjunct2, THEN conjunct2, THEN conjunct2,
      THEN conjunct2, THEN conjunct1, rule_format, OF t4, of False]
  have G: "multiplyRow_step False ?a ?b 2 1 ?st3
      = Inr \<lparr>result = [[0, 0], [43, 0]], tasks = [ColCheck 0, ColCheck 1]\<rparr>"
    by simp
  have t5: "tasks ?st4 ! 0 = ColCheck 2 \<and> \<not> (2::nat) < 2" by simp
  from at40 [THEN conjunct2, THEN conjunct2, THEN conjunct2, THEN conjunct1, rule_format, OF t5,
      THEN conjunct2, THEN conjunct2, of False]
  have D: "multiplyRow_step False ?a ?b 2 0 ?st4
      = Inr \<lparr>result = [[19, 22], [0, 0]], tasks = [RowDone, ColCheck 0]\<rparr>"
    by simp
  have t2: "tasks ?st2 ! 1 = RowDone" by simp
  from at21 [THEN conjunct2, THEN conjunct2, THEN conjunct1, rule_format, OF t2]
  have B1: "\<exists>j\<le>2. [43, 0] = product_prefix ?a ?b 2 1 j" by simp
  show ?thesis by (intro conjI h1 h2 z r1 A1 A2 A3 I F r3 G r4 D r2 B1)
qed

section \<open>The claims about the registry and the handler\<close>

text \<open>
  Claim C10. \<open>extractIP\<close> is total. When \<open>net.SplitHostPort\<close> splits the address into a
  host and a port, it returns the host, and the address is the host, a colon and the port
  (with the host in brackets in the second form), so the key is the address without its
  port. When the split fails it returns the address unchanged. The key is empty only for
  the empty address or an address whose host part is empty, such as \<open>:80\<close>.
\<close>

theorem extractIP_host_or_whole:
  "(\<forall>h p. SplitHostPort a = Inr (h, p) \<longrightarrow>
      extractIP a = h \<and> (a = h @ CHR '':'' # p \<or> a = CHR ''['' # h @ CHR '']'' # CHR '':'' # p)) \<and>
   (\<forall>e. SplitHostPort a = Inl e \<longrightarrow> extractIP a = a) \<and>
   (extractIP a = [] \<longrightarrow> a = [] \<or> (\<exists>p. SplitHostPort a = Inr ([], p)))"
proof (intro conjI allI impI)
  fix h p assume "SplitHostPort a = Inr (h, p)"
  then show "extractIP a = h" by (simp add: extractIP_def)
next
  fix h p assume "SplitHostPort a = Inr (h, p)"
  then show "a = h @ CHR '':'' # p \<or> a = CHR ''['' # h @ CHR '']'' # CHR '':'' # p"
    by (rule SplitHostPort_form)
next
  fix e assume "SplitHostPort a = Inl e"
  then show "extractIP a = a" by (simp add: extractIP_def)
next
  assume "extractIP a = []"
  then show "a = [] \<or> (\<exists>p. SplitHostPort a = Inr ([], p))"
    by (auto simp: extractIP_def split: sum.splits)
qed

text \<open>The theorem at an address with a port, a bracketed one, one without a port, and \<open>:80\<close>.\<close>

theorem extractIP_host_or_whole_witness:
  "SplitHostPort ''10.0.0.1:5000'' = Inr (''10.0.0.1'', ''5000'') \<and>
   extractIP ''10.0.0.1:5000'' = ''10.0.0.1'' \<and>
   SplitHostPort ''[::1]:5000'' = Inr (''::1'', ''5000'') \<and>
   extractIP ''[::1]:5000'' = ''::1'' \<and>
   SplitHostPort ''10.0.0.1'' = Inl MissingPort \<and>
   extractIP ''10.0.0.1'' = ''10.0.0.1'' \<and>
   extractIP '':80'' = [] \<and>
   (\<exists>p. SplitHostPort '':80'' = Inr ([], p))"
proof -
  have s1: "SplitHostPort ''10.0.0.1:5000'' = Inr (''10.0.0.1'', ''5000'')" by code_simp
  have s2: "SplitHostPort ''[::1]:5000'' = Inr (''::1'', ''5000'')" by code_simp
  have s3: "SplitHostPort ''10.0.0.1'' = Inl MissingPort" by code_simp
  have s4: "extractIP '':80'' = []" by code_simp
  from extractIP_host_or_whole [of "''10.0.0.1:5000''"] s1
  have e1: "extractIP ''10.0.0.1:5000'' = ''10.0.0.1''" by blast
  from extractIP_host_or_whole [of "''[::1]:5000''"] s2
  have e2: "extractIP ''[::1]:5000'' = ''::1''" by blast
  from extractIP_host_or_whole [of "''10.0.0.1''"] s3
  have e3: "extractIP ''10.0.0.1'' = ''10.0.0.1''" by blast
  from extractIP_host_or_whole [of "'':80''"] s4
  have e4: "\<exists>p. SplitHostPort '':80'' = Inr ([], p)" by blast
  show ?thesis by (intro conjI s1 e1 s2 e2 s3 e3 s4 e4)
qed

text \<open>
  Claim C8. Take any state the server can reach, with either version of the handler, in
  which a call is on the computing path (its row goroutines are running, or
  \<open>multiplyMatricesParallel\<close> has returned and the last \<open>select\<close> is next) and its context
  is cancelled. Once the multiplier has returned, the handler's next step writes exactly
  \<open>Request was cancelled\<close> and a newline and returns. Whatever happens from that state on,
  the response is empty until the handler returns and is exactly that line afterwards: no
  header line and no row is ever written, however many rows were computed.
\<close>

theorem handler_cancelled_response:
  assumes "s = exec ver invs init_sys evs"
    and "pc (jobs s j) = Computing \<or> pc (jobs s j) = Reporting"
    and "j \<in> cancelled s"
  shows "(pc (jobs s j) = Reporting \<longrightarrow>
            pc (jobs (sys_step ver invs s (Main j)) j) = Finished \<and>
            body (jobs (sys_step ver invs s (Main j)) j) = cancelled_body) \<and>
         (\<forall>es. (pc (jobs (exec ver invs s es) j) = Finished \<and>
                 body (jobs (exec ver invs s es) j) = cancelled_body) \<or>
                (pc (jobs (exec ver invs s es) j) \<noteq> Finished \<and>
                 body (jobs (exec ver invs s es) j) = []))"
proof -
  from assms(1,2) have b: "body (jobs s j) = []" using reachable_body [of ver invs evs j] by auto
  from sys_inv_reachable [of ver invs evs] assms(1) have nc: "\<not> crashed s"
    by (simp add: sys_inv_def)
  have A: "pc (jobs (sys_step ver invs s (Main j)) j) = Finished \<and>
           body (jobs (sys_step ver invs s (Main j)) j) = cancelled_body"
    if "pc (jobs s j) = Reporting"
    using that assms(3) b nc by (simp add: step_defs)
  have B: "(pc (jobs (exec ver invs s es) j) = Finished \<and>
            body (jobs (exec ver invs s es) j) = cancelled_body) \<or>
           (pc (jobs (exec ver invs s es) j) \<noteq> Finished \<and>
            body (jobs (exec ver invs s es) j) = [])" for es
    using cancelled_compute_exec [OF assms(3), of ver invs es] assms(2) b by auto
  from A B show ?thesis by blast
qed

text \<open>
  The theorem at a call whose only row was computed in full (\<open>[[42]]\<close>) before a second
  request from the same address cancelled it.
\<close>

theorem handler_cancelled_response_witness:
  "pc (jobs (exec V2 (\<lambda>j. small_call) init_sys
        [Main 0, Main 0, Main 0, Main 0, Row 0 0, Row 0 0, Row 0 0, Row 0 0, Main 0, Main 1]) 0)
     = Reporting \<and>
   0 \<in> cancelled (exec V2 (\<lambda>j. small_call) init_sys
        [Main 0, Main 0, Main 0, Main 0, Row 0 0, Row 0 0, Row 0 0, Row 0 0, Main 0, Main 1]) \<and>
   result (mult (jobs (exec V2 (\<lambda>j. small_call) init_sys
        [Main 0, Main 0, Main 0, Main 0, Row 0 0, Row 0 0, Row 0 0, Row 0 0, Main 0, Main 1]) 0))
     = [[42]] \<and>
   pc (jobs (sys_step V2 (\<lambda>j. small_call) (exec V2 (\<lambda>j. small_call) init_sys
        [Main 0, Main 0, Main 0, Main 0, Row 0 0, Row 0 0, Row 0 0, Row 0 0, Main 0, Main 1])
        (Main 0)) 0) = Finished \<and>
   body (jobs (sys_step V2 (\<lambda>j. small_call) (exec V2 (\<lambda>j. small_call) init_sys
        [Main 0, Main 0, Main 0, Main 0, Row 0 0, Row 0 0, Row 0 0, Row 0 0, Main 0, Main 1])
        (Main 0)) 0) = ''Request was cancelled\<newline>''"
proof -
  let ?s = "exec V2 (\<lambda>j. small_call) init_sys
        [Main 0, Main 0, Main 0, Main 0, Row 0 0, Row 0 0, Row 0 0, Row 0 0, Main 0, Main 1]"
  have p: "pc (jobs ?s 0) = Reporting" by code_simp
  have c: "0 \<in> cancelled ?s" by code_simp
  have r: "result (mult (jobs ?s 0)) = [[42]]" by code_simp
  from p have p': "pc (jobs ?s 0) = Computing \<or> pc (jobs ?s 0) = Reporting" by simp
  from handler_cancelled_response [OF refl p' c] p
  have f: "pc (jobs (sys_step V2 (\<lambda>j. small_call) ?s (Main 0)) 0) = Finished"
    and b: "body (jobs (sys_step V2 (\<lambda>j. small_call) ?s (Main 0)) 0) = ''Request was cancelled\<newline>''"
    by (simp_all add: cancelled_body_def)
  show ?thesis by (intro conjI p c r f b)
qed

text \<open>
  Claim C9. Take any state the server can reach, with either version of the handler, in
  which a call has taken the default branch of its last \<open>select\<close>, or has returned with a
  response that is none of the three failure bodies. Then the size \<open>N\<close> it computed with
  is between 1 and 2000, and from the handler's next step on the response is exactly:
  the line \<open>Matrix multiplication (size: N) completed in ms milliseconds\<close> with the
  measured milliseconds, the line \<open>Resulting Matrix:\<close>, and \<open>N\<close> further lines, one for
  each row of the product of the two generated matrices. No line contains a newline of
  its own. The line of a row of the product is the row's \<open>N\<close> numbers, each in decimal,
  with one space between two neighbours, in square brackets; a number in decimal has no
  space and reads back as the number, as do \<open>N\<close> and the milliseconds in the first line.
\<close>

theorem handler_success_response:
  assumes "s = exec ver invs init_sys evs"
    and "pc (jobs s j) = Writing \<or>
         (pc (jobs s j) = Finished \<and> body (jobs s j) \<noteq> oversize_body \<and>
          body (jobs s j) \<noteq> cancelled_body \<and> body (jobs s j) \<noteq> store_failed_body)"
  shows "\<exists>N R. sizing ver (sizeParam (invs j)) = Compute N \<and> 1 \<le> N \<and> N \<le> 2000 \<and>
     R = matrix_product (generateMatrix (randA (invs j)) (nat N))
            (generateMatrix (randB (invs j)) (nat N)) (nat N) \<and>
     square (nat N) R \<and>
     pc (jobs (sys_step ver invs s (Main j)) j) = Finished \<and>
     (\<forall>es. body (jobs (exec ver invs s (Main j # es)) j)
        = unlines (header_line N (elapsedMillis (invs j)) # ''Resulting Matrix:'' # map show_row R)) \<and>
     list_all (\<lambda>l. CHR ''\<newline>'' \<notin> set l)
       (header_line N (elapsedMillis (invs j)) # ''Resulting Matrix:'' # map show_row R) \<and>
     length (map show_row R) = nat N \<and>
     list_all (\<lambda>r. length r = nat N \<and>
         show_row r = bracketed (space_separated (map (\<lambda>x. show_int (sint x)) r)) \<and>
         list_all (\<lambda>x. decimal_value (show_int (sint x)) = Some (sint x) \<and>
                      CHR '' '' \<notin> set (show_int (sint x))) r) R \<and>
     header_line N (elapsedMillis (invs j))
       = ''Matrix multiplication (size: '' @ show_int N @ '') completed in ''
           @ show_int (elapsedMillis (invs j)) @ '' milliseconds'' \<and>
     decimal_value (show_int N) = Some N \<and>
     decimal_value (show_int (elapsedMillis (invs j))) = Some (elapsedMillis (invs j))"
proof -
  let ?x = "jobs s j" and ?iv = "invs j"
  let ?s' = "sys_step ver invs s (Main j)"
  have ji: "job_inv ver ?iv (j \<in> cancelled s) ?x"
    unfolding assms(1) by (rule reachable_job_inv)
  from sys_inv_reachable [of ver invs evs] assms(1) have nc: "\<not> crashed s"
    by (simp add: sys_inv_def)
  from assms(2) ji have pre: "sized ver ?iv ?x" "generated ?iv ?x" "rows_done ?x" "mult_inv False ?x"
    by (auto simp: job_inv_def)
  from success_shape [OF pre] obtain N where N: "sizing ver (sizeParam ?iv) = Compute N"
    "1 \<le> N" "N \<le> 2000" "matrixSize ?x = N"
    and R: "result (mult ?x) = matrix_product (generateMatrix (randA ?iv) (nat N))
                          (generateMatrix (randB ?iv) (nat N)) (nat N)"
    by blast
  let ?R = "matrix_product (generateMatrix (randA ?iv) (nat N))
                          (generateMatrix (randB ?iv) (nat N)) (nat N)"
  have sq: "square (nat N) ?R" by (rule square_matrix_product)
  have fin: "pc (jobs ?s' j) = Finished \<and> body (jobs ?s' j) = success_body N (elapsedMillis ?iv) ?R"
  proof (cases "pc ?x = Writing")
    case True
    with ji have "body ?x = []" by (simp add: job_inv_def)
    with True nc N(4) R show ?thesis by (simp add: step_defs)
  next
    case False
    with assms(2) have f: "pc ?x = Finished" and nb: "body ?x \<noteq> oversize_body"
      "body ?x \<noteq> cancelled_body" "body ?x \<noteq> store_failed_body" by auto
    from f ji nb have "body ?x = success_body (matrixSize ?x) (elapsedMillis ?iv) (result (mult ?x))"
      by (auto simp: job_inv_def)
    moreover from f have "jobs ?s' j = ?x" by (rule Finished_stays)
    ultimately show ?thesis using f N(4) R by simp
  qed
  then have stay: "body (jobs (exec ver invs s (Main j # es)) j)
      = success_body N (elapsedMillis ?iv) ?R" for es
    by (simp add: Finished_exec exec_Cons)
  have nl: "list_all (\<lambda>l. CHR ''\<newline>'' \<notin> set l)
       (header_line N (elapsedMillis ?iv) # ''Resulting Matrix:'' # map show_row ?R)"
    by (simp add: header_line_no_newline list_all_iff show_row_no_newline)
  have len: "length (map show_row ?R) = nat N"
    using sq by (simp add: square_def)
  have rows: "list_all (\<lambda>r. length r = nat N \<and>
         show_row r = bracketed (space_separated (map (\<lambda>x. show_int (sint x)) r)) \<and>
         list_all (\<lambda>x. decimal_value (show_int (sint x)) = Some (sint x) \<and>
                      CHR '' '' \<notin> set (show_int (sint x))) r) ?R"
    using sq show_row_bracketed
    by (simp add: square_def list_all_iff decimal_value_show_int show_int_no_space)
  have hd: "header_line N (elapsedMillis ?iv)
       = ''Matrix multiplication (size: '' @ show_int N @ '') completed in ''
           @ show_int (elapsedMillis ?iv) @ '' milliseconds''"
    by (simp add: header_line_def)
  have body: "\<forall>es. body (jobs (exec ver invs s (Main j # es)) j)
        = unlines (header_line N (elapsedMillis ?iv) # ''Resulting Matrix:'' # map show_row ?R)"
    using stay by (simp add: success_body_lines)
  from fin have fin': "pc (jobs ?s' j) = Finished" by simp
  show ?thesis
    by (intro exI [of _ N] exI [of _ ?R] conjI N(1-3) refl sq fin' body nl len rows hd
        decimal_value_show_int)
qed

text \<open>
  The theorem at a request for size 1, whose product is \<open>[[42]]\<close>, and at a request for
  size 2, whose product is \<open>[[74, 83], [544, 613]]\<close> and whose two row goroutines run
  interleaved.
\<close>

theorem handler_success_response_witness:
  "pc (jobs (exec V2 (\<lambda>j. small_call) init_sys
        [Main 0, Main 0, Main 0, Main 0, Row 0 0, Row 0 0, Row 0 0, Row 0 0, Main 0, Main 0]) 0)
     = Writing \<and>
   sizing V2 (sizeParam small_call) = Compute 1 \<and>
   body (jobs (exec V2 (\<lambda>j. small_call) (exec V2 (\<lambda>j. small_call) init_sys
        [Main 0, Main 0, Main 0, Main 0, Row 0 0, Row 0 0, Row 0 0, Row 0 0, Main 0, Main 0])
        [Main 0, Main 1, Main 1]) 0)
     = ''Matrix multiplication (size: 1) completed in 3 milliseconds\<newline>Resulting Matrix:\<newline>[42]\<newline>'' \<and>
   pc (jobs (exec V2 (\<lambda>j. pair_call) init_sys
        [Main 0, Main 0, Main 0, Main 0, Row 0 0, Row 0 1, Row 0 0, Row 0 1, Row 0 0, Row 0 1, Row 0 0, Row 0 1, Row 0 0, Row 0 1, Row 0 0, Row 0 1, Row 0 0, Row 0 1, Row 0 0, Row 0 1, Row 0 0, Row 0 1, Main 0, Main 0]) 0)
     = Writing \<and>
   sizing V2 (sizeParam pair_call) = Compute 2 \<and>
   matrix_product (generateMatrix (randA pair_call) 2) (generateMatrix (randB pair_call) 2) 2
     = [[74, 83], [544, 613]] \<and>
   body (jobs (exec V2 (\<lambda>j. pair_call) (exec V2 (\<lambda>j. pair_call) init_sys
        [Main 0, Main 0, Main 0, Main 0, Row 0 0, Row 0 1, Row 0 0, Row 0 1, Row 0 0, Row 0 1, Row 0 0, Row 0 1, Row 0 0, Row 0 1, Row 0 0, Row 0 1, Row 0 0, Row 0 1, Row 0 0, Row 0 1, Row 0 0, Row 0 1, Main 0, Main 0])
        [Main 0, Main 1, Main 1]) 0)
     = ''Matrix multiplication (size: 2) completed in 125 milliseconds\<newline>Resulting Matrix:\<newline>[74 83]\<newline>[544 613]\<newline>'' \<and>
   show_row [544, 613] = bracketed (space_separated [''544'', ''613'']) \<and>
   decimal_value ''613'' = Some 613"
proof -
  let ?s = "exec V2 (\<lambda>j. small_call) init_sys
        [Main 0, Main 0, Main 0, Main 0, Row 0 0, Row 0 0, Row 0 0, Row 0 0, Main 0, Main 0]"
  have p: "pc (jobs ?s 0) = Writing" by code_simp
  have z: "sizing V2 (sizeParam small_call) = Compute 1" by code_simp
  from p have p': "pc (jobs ?s 0) = Writing \<or>
         (pc (jobs ?s 0) = Finished \<and> body (jobs ?s 0) \<noteq> oversize_body \<and>
          body (jobs ?s 0) \<noteq> cancelled_body \<and> body (jobs ?s 0) \<noteq> store_failed_body)"
    by simp
  from handler_success_response [OF refl p'] obtain N R
    where n: "sizing V2 (sizeParam small_call) = Compute N"
      and r: "R = matrix_product (generateMatrix (randA small_call) (nat N))
            (generateMatrix (randB small_call) (nat N)) (nat N)"
      and b0: "\<forall>es. body (jobs (exec V2 (\<lambda>j. small_call) ?s (Main 0 # es)) 0)
        = unlines (header_line N (elapsedMillis small_call) # ''Resulting Matrix:'' # map show_row R)"
    by blast
  from n z have "N = 1" by simp
  with r b0 have "body (jobs (exec V2 (\<lambda>j. small_call) ?s [Main 0, Main 1, Main 1]) 0)
      = unlines (header_line 1 (elapsedMillis small_call) # ''Resulting Matrix:'' #
          map show_row (matrix_product (generateMatrix (randA small_call) (nat 1))
            (generateMatrix (randB small_call) (nat 1)) (nat 1)))"
    by simp
  also have "\<dots> = ''Matrix multiplication (size: 1) completed in 3 milliseconds\<newline>Resulting Matrix:\<newline>[42]\<newline>''"
    by code_simp
  finally have b: "body (jobs (exec V2 (\<lambda>j. small_call) ?s [Main 0, Main 1, Main 1]) 0)
      = ''Matrix multiplication (size: 1) completed in 3 milliseconds\<newline>Resulting Matrix:\<newline>[42]\<newline>''" .
  let ?u = "exec V2 (\<lambda>j. pair_call) init_sys
        [Main 0, Main 0, Main 0, Main 0, Row 0 0, Row 0 1, Row 0 0, Row 0 1, Row 0 0, Row 0 1, Row 0 0, Row 0 1, Row 0 0, Row 0 1, Row 0 0, Row 0 1, Row 0 0, Row 0 1, Row 0 0, Row 0 1, Row 0 0, Row 0 1, Main 0, Main 0]"
  have pu: "pc (jobs ?u 0) = Writing" by code_simp
  have zu: "sizing V2 (sizeParam pair_call) = Compute 2" by code_simp
  have mu: "matrix_product (generateMatrix (randA pair_call) 2) (generateMatrix (randB pair_call) 2) 2
     = [[74, 83], [544, 613]]" by code_simp
  from pu have pu': "pc (jobs ?u 0) = Writing \<or>
         (pc (jobs ?u 0) = Finished \<and> body (jobs ?u 0) \<noteq> oversize_body \<and>
          body (jobs ?u 0) \<noteq> cancelled_body \<and> body (jobs ?u 0) \<noteq> store_failed_body)"
    by simp
  from handler_success_response [OF refl pu'] obtain M Q
    where m: "sizing V2 (sizeParam pair_call) = Compute M"
      and q: "Q = matrix_product (generateMatrix (randA pair_call) (nat M))
            (generateMatrix (randB pair_call) (nat M)) (nat M)"
      and bu0: "\<forall>es. body (jobs (exec V2 (\<lambda>j. pair_call) ?u (Main 0 # es)) 0)
        = unlines (header_line M (elapsedMillis pair_call) # ''Resulting Matrix:'' # map show_row Q)"
      and rows: "list_all (\<lambda>r. length r = nat M \<and>
         show_row r = bracketed (space_separated (map (\<lambda>x. show_int (sint x)) r)) \<and>
         list_all (\<lambda>x. decimal_value (show_int (sint x)) = Some (sint x) \<and>
                      CHR '' '' \<notin> set (show_int (sint x))) r) Q"
    by blast
  from m zu have m2: "M = 2" by simp
  have n2: "nat 2 = (2::nat)" by simp
  from q mu have qq: "Q = [[74, 83], [544, 613]]" unfolding m2 n2 by simp
  have "body (jobs (exec V2 (\<lambda>j. pair_call) ?u [Main 0, Main 1, Main 1]) 0)
      = unlines (header_line 2 (elapsedMillis pair_call) # ''Resulting Matrix:'' #
          map show_row [[74, 83], [544, 613]])"
    using bu0 unfolding m2 qq by simp
  also have "\<dots> = ''Matrix multiplication (size: 2) completed in 125 milliseconds\<newline>Resulting Matrix:\<newline>[74 83]\<newline>[544 613]\<newline>''"
    by code_simp
  finally have bu: "body (jobs (exec V2 (\<lambda>j. pair_call) ?u [Main 0, Main 1, Main 1]) 0)
      = ''Matrix multiplication (size: 2) completed in 125 milliseconds\<newline>Resulting Matrix:\<newline>[74 83]\<newline>[544 613]\<newline>''" .
  have s613: "show_int (sint (613 :: 64 word)) = ''613''" by code_simp
  have s544: "show_int (sint (544 :: 64 word)) = ''544''" by code_simp
  from rows have row2: "show_row [544, 613]
      = bracketed (space_separated (map (\<lambda>x. show_int (sint x)) [544, 613 :: 64 word]))"
    and d0: "decimal_value (show_int (sint (613 :: 64 word))) = Some (sint (613 :: 64 word))"
    unfolding qq by simp_all
  from row2 have sr: "show_row [544, 613] = bracketed (space_separated [''544'', ''613''])"
    by (simp only: list.map s613 s544)
  have sv: "sint (613 :: 64 word) = 613" by code_simp
  have iv: "show_int (613 :: int) = ''613''" by code_simp
  from d0 have dv: "decimal_value ''613'' = Some 613" unfolding sv iv .
  show ?thesis by (intro conjI p z b pu zu mu bu sr dv)
qed

text \<open>
  Claim C6. \<open>cancelPreviousRequest(key)\<close> is one critical section. When \<open>activeRequests\<close>
  has an entry for \<open>key\<close>, it cancels that entry's context and removes the entry; when it
  has none, it changes nothing. The entries of all other keys, and everything else, stay
  as they are. In the running server, with either version of the handler, a step of a
  call never cancels the context of a call with another key, and never changes the entry
  of another key.
\<close>

theorem cancelPreviousRequest_frame:
  "(\<forall>h. activeRequests s key = Some h \<longrightarrow>
       cancelled (cancelPreviousRequest key s) = insert h (cancelled s) \<and>
       activeRequests (cancelPreviousRequest key s) key = None) \<and>
   (activeRequests s key = None \<longrightarrow> cancelPreviousRequest key s = s) \<and>
   (\<forall>k. k \<noteq> key \<longrightarrow> activeRequests (cancelPreviousRequest key s) k = activeRequests s k) \<and>
   jobs (cancelPreviousRequest key s) = jobs s \<and>
   crashed (cancelPreviousRequest key s) = crashed s \<and>
   (\<forall>evs j j'. key_of invs j' \<noteq> key_of invs j \<longrightarrow>
      (j \<in> cancelled (sys_step ver invs (exec ver invs init_sys evs) (Main j'))
         \<longleftrightarrow> j \<in> cancelled (exec ver invs init_sys evs)) \<and>
      activeRequests (sys_step ver invs (exec ver invs init_sys evs) (Main j')) (key_of invs j)
        = activeRequests (exec ver invs init_sys evs) (key_of invs j))"
proof -
  have A: "\<forall>h. activeRequests s key = Some h \<longrightarrow>
       cancelled (cancelPreviousRequest key s) = insert h (cancelled s) \<and>
       activeRequests (cancelPreviousRequest key s) key = None"
    by (simp add: cancelPreviousRequest_def)
  have B: "activeRequests s key = None \<longrightarrow> cancelPreviousRequest key s = s"
    by (simp add: cancelPreviousRequest_def)
  have C: "\<forall>k. k \<noteq> key \<longrightarrow> activeRequests (cancelPreviousRequest key s) k = activeRequests s k"
    by (simp add: cancelPreviousRequest_def split: option.splits)
  have D: "jobs (cancelPreviousRequest key s) = jobs s"
    "crashed (cancelPreviousRequest key s) = crashed s"
    by (simp_all add: cancelPreviousRequest_def split: option.splits)
  have E: "(j \<in> cancelled (sys_step ver invs (exec ver invs init_sys evs) (Main j'))
         \<longleftrightarrow> j \<in> cancelled (exec ver invs init_sys evs)) \<and>
      activeRequests (sys_step ver invs (exec ver invs init_sys evs) (Main j')) (key_of invs j)
        = activeRequests (exec ver invs init_sys evs) (key_of invs j)"
    if "key_of invs j' \<noteq> key_of invs j" for evs j j'
    using other_key_untouched [OF sys_inv_reachable that] .
  from A B C D E show ?thesis by blast
qed

text \<open>
  The theorem in the state where call 0, from \<open>10.0.0.1\<close>, has registered, and call 1
  arrives from \<open>10.0.0.2\<close>.
\<close>

theorem cancelPreviousRequest_frame_witness:
  "key_of two_keys 1 \<noteq> key_of two_keys 0 \<and>
   activeRequests (exec V2 two_keys init_sys [Main 0, Main 0]) ''10.0.0.1'' = Some 0 \<and>
   cancelled (cancelPreviousRequest ''10.0.0.1'' (exec V2 two_keys init_sys [Main 0, Main 0]))
     = insert 0 (cancelled (exec V2 two_keys init_sys [Main 0, Main 0])) \<and>
   activeRequests (cancelPreviousRequest ''10.0.0.1'' (exec V2 two_keys init_sys [Main 0, Main 0]))
     ''10.0.0.1'' = None \<and>
   activeRequests (exec V2 two_keys init_sys [Main 0, Main 0]) ''10.0.0.2'' = None \<and>
   cancelPreviousRequest ''10.0.0.2'' (exec V2 two_keys init_sys [Main 0, Main 0])
     = exec V2 two_keys init_sys [Main 0, Main 0] \<and>
   activeRequests (cancelPreviousRequest ''10.0.0.2'' (exec V2 two_keys init_sys [Main 0, Main 0]))
     ''10.0.0.1'' = Some 0 \<and>
   0 \<notin> cancelled (exec V2 two_keys init_sys [Main 0, Main 0]) \<and>
   0 \<notin> cancelled (sys_step V2 two_keys (exec V2 two_keys init_sys [Main 0, Main 0]) (Main 1)) \<and>
   activeRequests (sys_step V2 two_keys (exec V2 two_keys init_sys [Main 0, Main 0]) (Main 1))
     ''10.0.0.1'' = Some 0"
proof -
  let ?t = "exec V2 two_keys init_sys [Main 0, Main 0]"
  have k: "key_of two_keys 1 \<noteq> key_of two_keys 0" by code_simp
  have k0: "key_of two_keys 0 = ''10.0.0.1''" by code_simp
  have a0: "activeRequests ?t ''10.0.0.1'' = Some 0" by code_simp
  have a1: "activeRequests ?t ''10.0.0.2'' = None" by code_simp
  have c0: "0 \<notin> cancelled ?t" by code_simp
  have ne: "''10.0.0.1'' \<noteq> ''10.0.0.2''" by simp
  from cancelPreviousRequest_frame [where s = ?t and invs = two_keys and ver = V2 and key = "''10.0.0.1''"] a0
  have A: "cancelled (cancelPreviousRequest ''10.0.0.1'' ?t) = insert 0 (cancelled ?t)"
    and B: "activeRequests (cancelPreviousRequest ''10.0.0.1'' ?t) ''10.0.0.1'' = None"
    by blast+
  from cancelPreviousRequest_frame [where s = ?t and invs = two_keys and ver = V2 and key = "''10.0.0.2''"] a1
  have C: "cancelPreviousRequest ''10.0.0.2'' ?t = ?t" by blast
  from cancelPreviousRequest_frame [where s = ?t and invs = two_keys and ver = V2 and key = "''10.0.0.2''"] ne a0
  have D: "activeRequests (cancelPreviousRequest ''10.0.0.2'' ?t) ''10.0.0.1'' = Some 0"
    by metis
  from cancelPreviousRequest_frame [where s = ?t and invs = two_keys and ver = V2 and key = "''10.0.0.2''"] k
  have E: "(0 \<in> cancelled (sys_step V2 two_keys ?t (Main 1)) \<longleftrightarrow> 0 \<in> cancelled ?t) \<and>
     activeRequests (sys_step V2 two_keys ?t (Main 1)) (key_of two_keys 0)
       = activeRequests ?t (key_of two_keys 0)"
    by blast
  from E c0 have F: "0 \<notin> cancelled (sys_step V2 two_keys ?t (Main 1))" by simp
  from E a0 k0 have G: "activeRequests (sys_step V2 two_keys ?t (Main 1)) ''10.0.0.1'' = Some 0"
    by simp
  show ?thesis by (intro conjI k a0 A B a1 C D c0 F G)
qed

text \<open>
  Claim C5, at the input where the unnamed version of the handler departs from it. The
  size \<open>99999999999999999999\<close> fails to parse: \<open>Atoi\<close> returns a range error together
  with the largest \<open>int\<close>. The handler of \<open>concurrency/v2/main.go\<close> applies the default
  first and computes with size 100 (lemma \<open>sizing_v2_default\<close>: it does so for every
  string that fails to parse or parses to a number that is not positive). The handler of
  the unnamed file tests the returned value against 2000 first, so this request goes to
  the oversize wait, where it blocks with an empty response; it applies the default only
  to strings whose returned value is at most 2000 (lemma \<open>sizing_part000_default\<close>).
\<close>

theorem part000_range_error_takes_oversize_path:
  "Atoi (sizeParam huge_call) = (9223372036854775807, Some ErrRange) \<and>
   pc (jobs (exec Part000 (\<lambda>j. huge_call) init_sys [Main 0, Main 0, Main 0]) 0) = AwaitCancel \<and>
   pc (jobs (exec Part000 (\<lambda>j. huge_call) init_sys [Main 0, Main 0, Main 0, Main 0]) 0) = AwaitCancel \<and>
   body (jobs (exec Part000 (\<lambda>j. huge_call) init_sys [Main 0, Main 0, Main 0, Main 0]) 0) = [] \<and>
   pc (jobs (exec V2 (\<lambda>j. huge_call) init_sys [Main 0, Main 0, Main 0]) 0) = Sized \<and>
   matrixSize (jobs (exec V2 (\<lambda>j. huge_call) init_sys [Main 0, Main 0, Main 0]) 0) = 100"
  by code_simp

text \<open>The two versions of the size test at that input.\<close>

lemma huge_call_sizing:
  "sizing_part000 (sizeParam huge_call) = Oversize \<and> sizing_v2 (sizeParam huge_call) = Compute 100"
  by code_simp

text \<open>
  The handler of \<open>concurrency/v2/main.go\<close> does what claim C5 says at every input: when
  the size fails to parse or is not positive, the call never enters the oversize wait,
  computes with size 100, and returns with the product of two 100 by 100 matrices unless
  it is cancelled or the store fails.
\<close>

lemma v2_invalid_size_defaults:
  assumes "snd (Atoi (sizeParam (invs j))) \<noteq> None \<or> fst (Atoi (sizeParam (invs j))) \<le> 0"
    and "s = exec V2 invs init_sys evs"
  shows "pc (jobs s j) \<noteq> AwaitCancel \<and>
     (pc (jobs s j) = Sized \<or> pc (jobs s j) = Computing \<or> pc (jobs s j) = Reporting \<or>
      pc (jobs s j) = Writing \<longrightarrow> matrixSize (jobs s j) = 100) \<and>
     (pc (jobs s j) = Finished \<longrightarrow>
        body (jobs s j) = cancelled_body \<or> body (jobs s j) = store_failed_body \<or>
        body (jobs s j) = success_body 100 (elapsedMillis (invs j))
          (matrix_product (generateMatrix (randA (invs j)) 100)
             (generateMatrix (randB (invs j)) 100) 100))"
proof -
  let ?x = "jobs s j" and ?iv = "invs j"
  from assms(1) have z: "sizing V2 (sizeParam ?iv) = Compute 100"
    by (simp add: sizing_def sizing_v2_default)
  have ji: "job_inv V2 ?iv (j \<in> cancelled s) ?x"
    unfolding assms(2) by (rule reachable_job_inv)
  have A: "pc ?x \<noteq> AwaitCancel" using ji z by (auto simp: job_inv_def)
  have B: "matrixSize ?x = 100"
    if "pc ?x = Sized \<or> pc ?x = Computing \<or> pc ?x = Reporting \<or> pc ?x = Writing"
    using that ji z by (auto simp: job_inv_def sized_def)
  have C: "body ?x = cancelled_body \<or> body ?x = store_failed_body \<or>
        body ?x = success_body 100 (elapsedMillis ?iv)
          (matrix_product (generateMatrix (randA ?iv) 100) (generateMatrix (randB ?iv) 100) 100)"
    if f: "pc ?x = Finished"
  proof -
    from f ji z consider "body ?x = store_failed_body" | "body ?x = cancelled_body"
      | "sized V2 ?iv ?x" "generated ?iv ?x" "rows_done ?x" "mult_inv False ?x"
        "body ?x = success_body (matrixSize ?x) (elapsedMillis ?iv) (result (mult ?x))"
      by (auto simp: job_inv_def)
    then show ?thesis
    proof cases
      case 3
      from success_shape [OF 3(1-4)] z 3(5) show ?thesis by auto
    qed simp_all
  qed
  from A B C show ?thesis by blast
qed

text \<open>
  Claim C3, as stated, at a single request for size 1 that runs to its successful end
  while no other request arrives: the handler has returned with the result, and the entry
  for its key is still its own cancel function, which nobody has called.
\<close>

theorem registry_cleanup_counterexample:
  "pc (jobs (exec V2 (\<lambda>j. small_call) init_sys
        [Main 0, Main 0, Main 0, Main 0, Row 0 0, Row 0 0, Row 0 0, Row 0 0, Main 0, Main 0, Main 0]) 0)
     = Finished \<and>
   body (jobs (exec V2 (\<lambda>j. small_call) init_sys
        [Main 0, Main 0, Main 0, Main 0, Row 0 0, Row 0 0, Row 0 0, Row 0 0, Main 0, Main 0, Main 0]) 0)
     = ''Matrix multiplication (size: 1) completed in 3 milliseconds\<newline>Resulting Matrix:\<newline>[42]\<newline>'' \<and>
   activeRequests (exec V2 (\<lambda>j. small_call) init_sys
        [Main 0, Main 0, Main 0, Main 0, Row 0 0, Row 0 0, Row 0 0, Row 0 0, Main 0, Main 0, Main 0])
     (extractIP (remoteAddr small_call)) = Some 0 \<and>
   0 \<notin> cancelled (exec V2 (\<lambda>j. small_call) init_sys
        [Main 0, Main 0, Main 0, Main 0, Row 0 0, Row 0 0, Row 0 0, Row 0 0, Main 0, Main 0, Main 0])"
  by code_simp

text \<open>
  Claim C3, amended. In every state the server can reach, with either version of the
  handler:
  \<^item> a call whose context is cancelled has no entry of its own in \<open>activeRequests\<close>, and a
    call that has reported a cancellation (with either of the two messages) has its
    context cancelled and so no entry of its own: the supersede step that cancelled it
    removed its entry. For these calls the claim holds as stated.
  \<^item> No step of a handler after its registration, and no step of a row goroutine,
    changes \<open>activeRequests\<close> or cancels a context: a call does not remove its own entry
    or cancel its own context when it completes.
  \<^item> So an entry \<open>k \<mapsto> j\<close> belongs to a call with the key \<open>k\<close> whose context is not
    cancelled; it is removed or replaced only by the supersede step or the registration
    step of another call with the key \<open>k\<close>, and the context of \<open>j\<close> is cancelled only by the
    supersede step of another call with that key. Through every continuation in which no
    other call with the key \<open>k\<close> takes a handler step, the entry stays \<open>k \<mapsto> j\<close> and the
    context of \<open>j\<close> stays uncancelled, also after the handler of \<open>j\<close> has returned with
    its result.
\<close>

theorem registry_entry_outlives_completion:
  assumes "s = exec ver invs init_sys evs"
  shows "(j \<in> cancelled s \<longrightarrow> (\<forall>k. activeRequests s k \<noteq> Some j)) \<and>
         (pc (jobs s j) = Finished \<and>
          (body (jobs s j) = cancelled_body \<or> body (jobs s j) = oversize_body) \<longrightarrow>
            j \<in> cancelled s \<and> (\<forall>k. activeRequests s k \<noteq> Some j)) \<and>
         (pc (jobs s j) \<noteq> Accepted \<and> pc (jobs s j) \<noteq> Superseded \<longrightarrow>
            activeRequests (sys_step ver invs s (Main j)) = activeRequests s \<and>
            cancelled (sys_step ver invs s (Main j)) = cancelled s) \<and>
         (\<forall>i. activeRequests (sys_step ver invs s (Row j i)) = activeRequests s \<and>
              cancelled (sys_step ver invs s (Row j i)) = cancelled s) \<and>
         (activeRequests s k = Some j \<longrightarrow>
            j \<notin> cancelled s \<and> key_of invs j = k \<and>
            (\<forall>e. activeRequests (sys_step ver invs s e) k \<noteq> Some j \<longrightarrow>
               (\<exists>j'. e = Main j' \<and> j' \<noteq> j \<and> key_of invs j' = k \<and>
                     (pc (jobs s j') = Accepted \<or> pc (jobs s j') = Superseded))) \<and>
            (\<forall>e. j \<in> cancelled (sys_step ver invs s e) \<longrightarrow>
               (\<exists>j'. e = Main j' \<and> j' \<noteq> j \<and> key_of invs j' = k \<and> pc (jobs s j') = Accepted)) \<and>
            (\<forall>es. (\<forall>j'. Main j' \<in> set es \<longrightarrow> j' = j \<or> key_of invs j' \<noteq> k) \<longrightarrow>
               activeRequests (exec ver invs s es) k = Some j \<and>
               j \<notin> cancelled (exec ver invs s es)))"
proof -
  have inv: "sys_inv ver invs s" unfolding assms(1) by (rule sys_inv_reachable)
  have live: "entries_live s" unfolding assms(1) by (rule entries_live_reachable)
  have P: "\<forall>k. activeRequests s k \<noteq> Some j" if "j \<in> cancelled s"
    using live that by (auto simp: entries_live_def)
  have Q: "j \<in> cancelled s \<and> (\<forall>k. activeRequests s k \<noteq> Some j)"
    if "pc (jobs s j) = Finished \<and>
          (body (jobs s j) = cancelled_body \<or> body (jobs s j) = oversize_body)"
  proof -
    from that have "j \<in> cancelled s"
      unfolding assms(1) using reported_cancel_is_cancelled [of ver invs evs j] by blast
    with P show ?thesis by simp
  qed
  have R: "activeRequests (sys_step ver invs s (Main j)) = activeRequests s \<and>
            cancelled (sys_step ver invs s (Main j)) = cancelled s"
    if "pc (jobs s j) \<noteq> Accepted \<and> pc (jobs s j) \<noteq> Superseded"
    using own_step_shared [OF inv, of j] that by (simp add: registered_def)
  have S: "activeRequests (sys_step ver invs s (Row j i)) = activeRequests s \<and>
              cancelled (sys_step ver invs s (Row j i)) = cancelled s" for i
    using Row_shared [of ver invs s j i] by simp
  have T: "j \<notin> cancelled s \<and> key_of invs j = k \<and>
            (\<forall>e. activeRequests (sys_step ver invs s e) k \<noteq> Some j \<longrightarrow>
               (\<exists>j'. e = Main j' \<and> j' \<noteq> j \<and> key_of invs j' = k \<and>
                     (pc (jobs s j') = Accepted \<or> pc (jobs s j') = Superseded))) \<and>
            (\<forall>e. j \<in> cancelled (sys_step ver invs s e) \<longrightarrow>
               (\<exists>j'. e = Main j' \<and> j' \<noteq> j \<and> key_of invs j' = k \<and> pc (jobs s j') = Accepted)) \<and>
            (\<forall>es. (\<forall>j'. Main j' \<in> set es \<longrightarrow> j' = j \<or> key_of invs j' \<noteq> k) \<longrightarrow>
               activeRequests (exec ver invs s es) k = Some j \<and>
               j \<notin> cancelled (exec ver invs s es))"
    if a: "activeRequests s k = Some j"
  proof -
    from live a have nj: "j \<notin> cancelled s" by (simp add: entries_live_def)
    from registry_key [OF inv a] have kj: "key_of invs j = k" by simp
    have A: "\<exists>j'. e = Main j' \<and> j' \<noteq> j \<and> key_of invs j' = k \<and>
              (pc (jobs s j') = Accepted \<or> pc (jobs s j') = Superseded)"
      if "activeRequests (sys_step ver invs s e) k \<noteq> Some j" for e
      using registry_change [OF inv a that] .
    have B: "\<exists>j'. e = Main j' \<and> j' \<noteq> j \<and> key_of invs j' = k \<and> pc (jobs s j') = Accepted"
      if "j \<in> cancelled (sys_step ver invs s e)" for e
      using cancel_cause [OF inv nj that] kj by auto
    have C: "activeRequests (exec ver invs s es) k = Some j \<and>
            j \<notin> cancelled (exec ver invs s es)"
      if "\<forall>j'. Main j' \<in> set es \<longrightarrow> j' = j \<or> key_of invs j' \<noteq> k" for es
      using entry_stays [OF inv a that] nj by simp
    from nj kj A B C show ?thesis by blast
  qed
  from P Q R S T show ?thesis by blast
qed

text \<open>
  The theorem in the state where call 0 has registered: a second request from the same
  address removes the entry and cancels call 0 by its first step; without it, call 0
  runs to its end, its last step and the steps of its row goroutine leave the registry
  and the contexts as they are, and its entry is still there. With the second request,
  call 0 reports the cancellation, and the entry under its key is then the one of
  call 1.
\<close>

theorem registry_entry_outlives_completion_witness:
  "activeRequests (exec V2 (\<lambda>j. small_call) init_sys [Main 0, Main 0]) ''10.0.0.1'' = Some 0 \<and>
   0 \<notin> cancelled (exec V2 (\<lambda>j. small_call) init_sys [Main 0, Main 0]) \<and>
   key_of (\<lambda>j. small_call) 0 = ''10.0.0.1'' \<and>
   activeRequests (sys_step V2 (\<lambda>j. small_call) (exec V2 (\<lambda>j. small_call) init_sys [Main 0, Main 0]) (Main 1)) ''10.0.0.1'' = None \<and>
   key_of (\<lambda>j. small_call) 1 = ''10.0.0.1'' \<and>
   pc (jobs (exec V2 (\<lambda>j. small_call) init_sys [Main 0, Main 0]) 1) = Accepted \<and>
   0 \<in> cancelled (sys_step V2 (\<lambda>j. small_call) (exec V2 (\<lambda>j. small_call) init_sys [Main 0, Main 0]) (Main 1)) \<and>
   pc (jobs (exec V2 (\<lambda>j. small_call) (exec V2 (\<lambda>j. small_call) init_sys [Main 0, Main 0])
      [Main 0, Main 0, Row 0 0, Row 0 0, Row 0 0, Row 0 0, Main 0, Main 0, Main 0]) 0) = Finished \<and>
   activeRequests (exec V2 (\<lambda>j. small_call) (exec V2 (\<lambda>j. small_call) init_sys [Main 0, Main 0])
      [Main 0, Main 0, Row 0 0, Row 0 0, Row 0 0, Row 0 0, Main 0, Main 0, Main 0]) ''10.0.0.1'' = Some 0 \<and>
   0 \<notin> cancelled (exec V2 (\<lambda>j. small_call) (exec V2 (\<lambda>j. small_call) init_sys [Main 0, Main 0])
      [Main 0, Main 0, Row 0 0, Row 0 0, Row 0 0, Row 0 0, Main 0, Main 0, Main 0]) \<and>
   pc (jobs (exec V2 (\<lambda>j. small_call) init_sys [Main 0, Main 0, Main 0, Main 0, Row 0 0, Row 0 0, Row 0 0, Row 0 0, Main 0, Main 0]) 0)
     = Writing \<and>
   activeRequests (sys_step V2 (\<lambda>j. small_call)
      (exec V2 (\<lambda>j. small_call) init_sys [Main 0, Main 0, Main 0, Main 0, Row 0 0, Row 0 0, Row 0 0, Row 0 0, Main 0, Main 0]) (Main 0))
     = activeRequests (exec V2 (\<lambda>j. small_call) init_sys [Main 0, Main 0, Main 0, Main 0, Row 0 0, Row 0 0, Row 0 0, Row 0 0, Main 0, Main 0]) \<and>
   cancelled (sys_step V2 (\<lambda>j. small_call)
      (exec V2 (\<lambda>j. small_call) init_sys [Main 0, Main 0, Main 0, Main 0, Row 0 0, Row 0 0, Row 0 0, Row 0 0, Main 0, Main 0]) (Main 0))
     = cancelled (exec V2 (\<lambda>j. small_call) init_sys [Main 0, Main 0, Main 0, Main 0, Row 0 0, Row 0 0, Row 0 0, Row 0 0, Main 0, Main 0]) \<and>
   activeRequests (sys_step V2 (\<lambda>j. small_call) (exec V2 (\<lambda>j. small_call) init_sys [Main 0, Main 0, Main 0, Main 0]) (Row 0 0))
     = activeRequests (exec V2 (\<lambda>j. small_call) init_sys [Main 0, Main 0, Main 0, Main 0]) \<and>
   cancelled (sys_step V2 (\<lambda>j. small_call) (exec V2 (\<lambda>j. small_call) init_sys [Main 0, Main 0, Main 0, Main 0]) (Row 0 0))
     = cancelled (exec V2 (\<lambda>j. small_call) init_sys [Main 0, Main 0, Main 0, Main 0]) \<and>
   pc (jobs (exec V2 (\<lambda>j. small_call) init_sys [Main 0, Main 0, Main 1, Main 1, Main 0, Main 0, Row 0 0, Main 0, Main 0]) 0) = Finished \<and>
   body (jobs (exec V2 (\<lambda>j. small_call) init_sys [Main 0, Main 0, Main 1, Main 1, Main 0, Main 0, Row 0 0, Main 0, Main 0]) 0)
     = ''Request was cancelled\<newline>'' \<and>
   0 \<in> cancelled (exec V2 (\<lambda>j. small_call) init_sys [Main 0, Main 0, Main 1, Main 1, Main 0, Main 0, Row 0 0, Main 0, Main 0]) \<and>
   activeRequests (exec V2 (\<lambda>j. small_call) init_sys [Main 0, Main 0, Main 1, Main 1, Main 0, Main 0, Row 0 0, Main 0, Main 0]) ''10.0.0.1''
     \<noteq> Some 0 \<and>
   activeRequests (exec V2 (\<lambda>j. small_call) init_sys [Main 0, Main 0, Main 1, Main 1, Main 0, Main 0, Row 0 0, Main 0, Main 0]) ''10.0.0.1''
     = Some 1 \<and>
   0 \<in> cancelled (exec V2 (\<lambda>j. small_call) init_sys [Main 0, Main 0, Main 1]) \<and>
   activeRequests (exec V2 (\<lambda>j. small_call) init_sys [Main 0, Main 0, Main 1]) ''10.0.0.1'' \<noteq> Some 0"
proof -
  let ?invs = "\<lambda>j::nat. small_call"
  let ?t = "exec V2 ?invs init_sys [Main 0, Main 0]"
  let ?es = "[Main 0, Main 0, Row 0 0, Row 0 0, Row 0 0, Row 0 0, Main 0, Main 0, Main 0]"
  let ?w = "exec V2 ?invs init_sys
      [Main 0, Main 0, Main 0, Main 0, Row 0 0, Row 0 0, Row 0 0, Row 0 0, Main 0, Main 0]"
  let ?m = "exec V2 ?invs init_sys [Main 0, Main 0, Main 0, Main 0]"
  let ?c = "exec V2 ?invs init_sys
      [Main 0, Main 0, Main 1, Main 1, Main 0, Main 0, Row 0 0, Main 0, Main 0]"
  let ?d = "exec V2 ?invs init_sys [Main 0, Main 0, Main 1]"
  note at_t = registry_entry_outlives_completion [where ver = V2 and invs = ?invs
      and evs = "[Main 0, Main 0]" and s = ?t and k = "''10.0.0.1''" and j = 0, OF refl]
  note at_w = registry_entry_outlives_completion [where ver = V2 and invs = ?invs
      and evs = "[Main 0, Main 0, Main 0, Main 0, Row 0 0, Row 0 0, Row 0 0, Row 0 0, Main 0, Main 0]"
      and s = ?w and k = "''10.0.0.1''" and j = 0, OF refl]
  note at_m = registry_entry_outlives_completion [where ver = V2 and invs = ?invs
      and evs = "[Main 0, Main 0, Main 0, Main 0]" and s = ?m and k = "''10.0.0.1''" and j = 0, OF refl]
  note at_c = registry_entry_outlives_completion [where ver = V2 and invs = ?invs
      and evs = "[Main 0, Main 0, Main 1, Main 1, Main 0, Main 0, Row 0 0, Main 0, Main 0]"
      and s = ?c and k = "''10.0.0.1''" and j = 0, OF refl]
  note at_d = registry_entry_outlives_completion [where ver = V2 and invs = ?invs
      and evs = "[Main 0, Main 0, Main 1]" and s = ?d and k = "''10.0.0.1''" and j = 0, OF refl]
  have a0: "activeRequests ?t ''10.0.0.1'' = Some 0" by code_simp
  note ent = at_t [THEN conjunct2, THEN conjunct2, THEN conjunct2, THEN conjunct2, rule_format, OF a0]
  note c0 = ent [THEN conjunct1]
  note k0 = ent [THEN conjunct2, THEN conjunct1]
  have a1: "activeRequests (sys_step V2 ?invs ?t (Main 1)) ''10.0.0.1'' = None" by code_simp
  then have ch: "activeRequests (sys_step V2 ?invs ?t (Main 1)) ''10.0.0.1'' \<noteq> Some 0" by simp
  from ent [THEN conjunct2, THEN conjunct2, THEN conjunct1, rule_format, OF ch]
  have k1: "key_of ?invs 1 = ''10.0.0.1''" by auto
  have c1: "0 \<in> cancelled (sys_step V2 ?invs ?t (Main 1))" by code_simp
  from ent [THEN conjunct2, THEN conjunct2, THEN conjunct2, THEN conjunct1, rule_format, OF c1]
  have p1: "pc (jobs ?t 1) = Accepted" by auto
  have only0: "\<forall>j'. Main j' \<in> set ?es \<longrightarrow> j' = 0 \<or> key_of ?invs j' \<noteq> ''10.0.0.1''" by simp
  note st = ent [THEN conjunct2, THEN conjunct2, THEN conjunct2, THEN conjunct2, THEN spec, THEN mp, OF only0]
  note a2 = st [THEN conjunct1]
  note c2 = st [THEN conjunct2]
  have f: "pc (jobs (exec V2 ?invs ?t ?es) 0) = Finished" by code_simp
  have pw: "pc (jobs ?w 0) = Writing" by code_simp
  then have pw': "pc (jobs ?w 0) \<noteq> Accepted \<and> pc (jobs ?w 0) \<noteq> Superseded" by simp
  note own = at_w [THEN conjunct2, THEN conjunct2, THEN conjunct1, rule_format, OF pw']
  note own1 = own [THEN conjunct1]
  note own2 = own [THEN conjunct2]
  note row = at_m [THEN conjunct2, THEN conjunct2, THEN conjunct2, THEN conjunct1, rule_format, of 0]
  note row1 = row [THEN conjunct1]
  note row2 = row [THEN conjunct2]
  have fc: "pc (jobs ?c 0) = Finished" by code_simp
  have bc: "body (jobs ?c 0) = ''Request was cancelled\<newline>''" by code_simp
  then have bc': "body (jobs ?c 0) = cancelled_body \<or> body (jobs ?c 0) = oversize_body"
    by (simp add: cancelled_body_def)
  from fc bc' have fb: "pc (jobs ?c 0) = Finished \<and>
      (body (jobs ?c 0) = cancelled_body \<or> body (jobs ?c 0) = oversize_body)" by simp
  note rep = at_c [THEN conjunct2, THEN conjunct1, rule_format, OF fb]
  note cc = rep [THEN conjunct1]
  note nc = rep [THEN conjunct2, rule_format, of "''10.0.0.1''"]
  have newer: "activeRequests ?c ''10.0.0.1'' = Some 1" by code_simp
  have cd: "0 \<in> cancelled ?d" by code_simp
  note nd = at_d [THEN conjunct1, rule_format, OF cd, of "''10.0.0.1''"]
  show ?thesis
    by (intro conjI a0 c0 k0 a1 k1 p1 c1 f a2 c2 pw own1 own2 row1 row2 fc bc cc nc newer cd nd)
qed

text \<open>
  Claim C4. Let the size parameter of call \<open>j\<close> parse, without error, to a number above
  2000. Then in every state the server can reach, with either version of the handler:
  \<^item> the call has generated no matrix and started no row goroutine, and its handler is
    at none of the control points of the computing path;
  \<^item> its response is empty until the handler returns, and when it has returned the
    response is exactly \<open>Request was cancelled due to large number\<close> and a newline, and
    its context is cancelled;
  \<^item> its first step is \<open>cancelPreviousRequest\<close> for its key, as for every call; its
    second step registers the call under its key; its third step, the size test, takes
    it to the wait on its context;
  \<^item> in the wait, the handler cannot move while its context is not cancelled, and its
    next step writes that message and returns once it is;
  \<^item> while its context is not cancelled, it stays so and the handler does not return
    through any continuation in which no call with the same key arrives (a call has
    arrived once it has taken its first step);
  \<^item> after any continuation in which the handler is scheduled three times it is in the
    wait (or has returned from it), whatever the other calls do; and once its context is
    cancelled, after any continuation in which it is scheduled four times it has
    returned with that message.
\<close>

theorem oversize_request_waits:
  assumes "Atoi (sizeParam (invs j)) = (n, None)" and "2000 < n"
    and "s = exec ver invs init_sys evs"
  shows "never_computed (jobs s j) \<and>
     pc (jobs s j) \<noteq> Sized \<and> pc (jobs s j) \<noteq> Computing \<and>
     pc (jobs s j) \<noteq> Reporting \<and> pc (jobs s j) \<noteq> Writing \<and>
     (pc (jobs s j) \<noteq> Finished \<longrightarrow> body (jobs s j) = []) \<and>
     (pc (jobs s j) = Finished \<longrightarrow> body (jobs s j) = oversize_body \<and> j \<in> cancelled s) \<and>
     (pc (jobs s j) = Accepted \<longrightarrow>
        sys_step ver invs s (Main j)
          = upd_job j (\<lambda>x. x\<lparr>ip := key_of invs j, pc := Superseded\<rparr>)
              (cancelPreviousRequest (key_of invs j) s)) \<and>
     (pc (jobs s j) = AwaitCancel \<and> j \<notin> cancelled s \<longrightarrow> sys_step ver invs s (Main j) = s) \<and>
     (pc (jobs s j) = AwaitCancel \<and> j \<in> cancelled s \<longrightarrow>
        pc (jobs (sys_step ver invs s (Main j)) j) = Finished \<and>
        body (jobs (sys_step ver invs s (Main j)) j) = oversize_body) \<and>
     (\<forall>es. j \<notin> cancelled s \<and>
           (\<forall>j'. j' \<noteq> j \<and> key_of invs j' = key_of invs j \<and> pc (jobs s j') = Accepted
                  \<longrightarrow> Main j' \<notin> set es) \<longrightarrow>
           j \<notin> cancelled (exec ver invs s es) \<and>
           pc (jobs (exec ver invs s es) j) \<noteq> Finished \<and>
           body (jobs (exec ver invs s es) j) = []) \<and>
     (pc (jobs s j) = Superseded \<longrightarrow>
        sys_step ver invs s (Main j)
          = upd_job j (\<lambda>x. x\<lparr>pc := Registered\<rparr>)
              (s\<lparr>activeRequests := (activeRequests s)(key_of invs j \<mapsto> j)\<rparr>)) \<and>
     (pc (jobs s j) = Registered \<longrightarrow>
        sys_step ver invs s (Main j) = upd_job j (\<lambda>x. x\<lparr>pc := AwaitCancel\<rparr>) s) \<and>
     (\<forall>es. 3 \<le> count_list es (Main j) \<longrightarrow>
           pc (jobs (exec ver invs s es) j) = AwaitCancel \<or>
           pc (jobs (exec ver invs s es) j) = Finished) \<and>
     (\<forall>es. j \<in> cancelled s \<and> 4 \<le> count_list es (Main j) \<longrightarrow>
           pc (jobs (exec ver invs s es) j) = Finished \<and>
           body (jobs (exec ver invs s es) j) = oversize_body)"
proof -
  from assms(1,2) have ov: "sizing ver (sizeParam (invs j)) = Oversize"
    by (rule sizing_parsed_oversize)
  have inv: "sys_inv ver invs s" unfolding assms(3) by (rule sys_inv_reachable)
  then have nc: "\<not> crashed s" by (simp add: sys_inv_def)
  have w: "waiting_inv j s" unfolding assms(3) using ov by (rule waiting_inv_reachable)
  then have A: "never_computed (jobs s j) \<and>
     pc (jobs s j) \<noteq> Sized \<and> pc (jobs s j) \<noteq> Computing \<and>
     pc (jobs s j) \<noteq> Reporting \<and> pc (jobs s j) \<noteq> Writing \<and>
     (pc (jobs s j) \<noteq> Finished \<longrightarrow> body (jobs s j) = []) \<and>
     (pc (jobs s j) = Finished \<longrightarrow> body (jobs s j) = oversize_body \<and> j \<in> cancelled s)"
    by (auto simp: waiting_inv_def)
  have B: "sys_step ver invs s (Main j)
          = upd_job j (\<lambda>x. x\<lparr>ip := key_of invs j, pc := Superseded\<rparr>)
              (cancelPreviousRequest (key_of invs j) s)"
    if "pc (jobs s j) = Accepted"
    using that nc by (simp add: sys_step_def handler_step_def key_of_def)
  have C: "sys_step ver invs s (Main j) = s" if "pc (jobs s j) = AwaitCancel \<and> j \<notin> cancelled s"
    using that nc by (simp add: sys_step_def handler_step_def)
  have D: "pc (jobs (sys_step ver invs s (Main j)) j) = Finished \<and>
        body (jobs (sys_step ver invs s (Main j)) j) = oversize_body"
    if "pc (jobs s j) = AwaitCancel \<and> j \<in> cancelled s"
    using that nc A by (simp add: step_defs)
  have E: "j \<notin> cancelled (exec ver invs s es) \<and>
           pc (jobs (exec ver invs s es) j) \<noteq> Finished \<and>
           body (jobs (exec ver invs s es) j) = []"
    if h: "j \<notin> cancelled s \<and>
           (\<forall>j'. j' \<noteq> j \<and> key_of invs j' = key_of invs j \<and> pc (jobs s j') = Accepted
                  \<longrightarrow> Main j' \<notin> set es)" for es
  proof -
    from h have n: "j \<notin> cancelled (exec ver invs s es)"
      using not_cancelled_without_newcomer [OF inv, of j es] by blast
    have "waiting_inv j (exec ver invs s es)"
      unfolding assms(3) exec_append [symmetric] using ov by (rule waiting_inv_reachable)
    with n show ?thesis by (auto simp: waiting_inv_def)
  qed
  have F: "sys_step ver invs s (Main j)
          = upd_job j (\<lambda>x. x\<lparr>pc := Registered\<rparr>)
              (s\<lparr>activeRequests := (activeRequests s)(key_of invs j \<mapsto> j)\<rparr>)"
    if "pc (jobs s j) = Superseded"
    using that nc ip_key [OF inv, of j] by (simp add: sys_step_def handler_step_def)
  have G: "sys_step ver invs s (Main j) = upd_job j (\<lambda>x. x\<lparr>pc := AwaitCancel\<rparr>) s"
    if "pc (jobs s j) = Registered"
    using that nc ov by (simp add: sys_step_def handler_step_def)
  have H: "pc (jobs (exec ver invs s es) j) = AwaitCancel \<or>
           pc (jobs (exec ver invs s es) j) = Finished"
    if "3 \<le> count_list es (Main j)" for es
  proof -
    from wait_rank_exec [where ver = ver and invs = invs and j = j and s = s and es = es,
        OF ov inv w] that
    have "3 \<le> wait_rank (pc (jobs (exec ver invs s es) j))" by simp
    then show ?thesis by (rule wait_rank_3)
  qed
  have I: "pc (jobs (exec ver invs s es) j) = Finished \<and>
           body (jobs (exec ver invs s es) j) = oversize_body"
    if h: "j \<in> cancelled s \<and> 4 \<le> count_list es (Main j)" for es
  proof -
    from wait_rank_exec_cancelled [where ver = ver and invs = invs and j = j and s = s
        and es = es, OF ov inv w] h
    have "4 \<le> wait_rank (pc (jobs (exec ver invs s es) j))" by simp
    then have f: "pc (jobs (exec ver invs s es) j) = Finished" by (rule wait_rank_4)
    have "waiting_inv j (exec ver invs s es)"
      unfolding assms(3) exec_append [symmetric] using ov by (rule waiting_inv_reachable)
    with f show ?thesis by (auto simp: waiting_inv_def)
  qed
  from A B C D E F G H I show ?thesis by blast
qed

text \<open>
  The theorem at a request for size 2001: its three steps into the wait, one by one and
  interleaved with another call; it stays in the wait while it is alone; a second
  request from the same address cancels it, and it returns with the message. The last
  lines are the theorem at a request for size 50000 with the other version of the
  handler.
\<close>

theorem oversize_request_waits_witness:
  "Atoi (sizeParam oversize_call) = (2001, None) \<and> (2000::int) < 2001 \<and>
   pc (jobs (exec V2 (\<lambda>j. oversize_call) init_sys [Main 0, Main 0, Main 0]) 0) = AwaitCancel \<and>
   0 \<notin> cancelled (exec V2 (\<lambda>j. oversize_call) init_sys [Main 0, Main 0, Main 0]) \<and>
   never_computed (jobs (exec V2 (\<lambda>j. oversize_call) init_sys [Main 0, Main 0, Main 0]) 0) \<and>
   sys_step V2 (\<lambda>j. oversize_call) (exec V2 (\<lambda>j. oversize_call) init_sys [Main 0, Main 0, Main 0]) (Main 0)
     = exec V2 (\<lambda>j. oversize_call) init_sys [Main 0, Main 0, Main 0] \<and>
   pc (jobs (exec V2 (\<lambda>j. oversize_call) (exec V2 (\<lambda>j. oversize_call) init_sys [Main 0, Main 0, Main 0])
        [Main 0, Row 0 0, Main 0, Main 0]) 0) \<noteq> Finished \<and>
   pc (jobs (exec V2 (\<lambda>j. oversize_call) init_sys [Main 0, Main 0, Main 0, Main 1]) 0) = AwaitCancel \<and>
   0 \<in> cancelled (exec V2 (\<lambda>j. oversize_call) init_sys [Main 0, Main 0, Main 0, Main 1]) \<and>
   pc (jobs (sys_step V2 (\<lambda>j. oversize_call)
        (exec V2 (\<lambda>j. oversize_call) init_sys [Main 0, Main 0, Main 0, Main 1]) (Main 0)) 0) = Finished \<and>
   body (jobs (sys_step V2 (\<lambda>j. oversize_call)
        (exec V2 (\<lambda>j. oversize_call) init_sys [Main 0, Main 0, Main 0, Main 1]) (Main 0)) 0)
     = ''Request was cancelled due to large number\<newline>'' \<and>
   pc (jobs (exec V2 (\<lambda>j. oversize_call) init_sys []) 0) = Accepted \<and>
   sys_step V2 (\<lambda>j. oversize_call) (exec V2 (\<lambda>j. oversize_call) init_sys []) (Main 0)
     = upd_job 0 (\<lambda>x. x\<lparr>ip := key_of (\<lambda>j. oversize_call) 0, pc := Superseded\<rparr>)
         (cancelPreviousRequest (key_of (\<lambda>j. oversize_call) 0) (exec V2 (\<lambda>j. oversize_call) init_sys [])) \<and>
   pc (jobs (exec V2 (\<lambda>j. oversize_call) init_sys [Main 0]) 0) = Superseded \<and>
   sys_step V2 (\<lambda>j. oversize_call) (exec V2 (\<lambda>j. oversize_call) init_sys [Main 0]) (Main 0)
     = upd_job 0 (\<lambda>x. x\<lparr>pc := Registered\<rparr>)
         ((exec V2 (\<lambda>j. oversize_call) init_sys [Main 0])\<lparr>activeRequests :=
            (activeRequests (exec V2 (\<lambda>j. oversize_call) init_sys [Main 0]))(key_of (\<lambda>j. oversize_call) 0 \<mapsto> 0)\<rparr>) \<and>
   pc (jobs (exec V2 (\<lambda>j. oversize_call) init_sys [Main 0, Main 0]) 0) = Registered \<and>
   sys_step V2 (\<lambda>j. oversize_call) (exec V2 (\<lambda>j. oversize_call) init_sys [Main 0, Main 0]) (Main 0)
     = upd_job 0 (\<lambda>x. x\<lparr>pc := AwaitCancel\<rparr>) (exec V2 (\<lambda>j. oversize_call) init_sys [Main 0, Main 0]) \<and>
   3 \<le> count_list [Main 0, Row 0 0, Main 1, Main 0, Main 1, Main 0] (Main 0) \<and>
   (pc (jobs (exec V2 (\<lambda>j. oversize_call) (exec V2 (\<lambda>j. oversize_call) init_sys [])
        [Main 0, Row 0 0, Main 1, Main 0, Main 1, Main 0]) 0) = AwaitCancel \<or>
    pc (jobs (exec V2 (\<lambda>j. oversize_call) (exec V2 (\<lambda>j. oversize_call) init_sys [])
        [Main 0, Row 0 0, Main 1, Main 0, Main 1, Main 0]) 0) = Finished) \<and>
   4 \<le> count_list [Main 0, Main 0, Main 0, Main 0] (Main 0) \<and>
   pc (jobs (exec V2 (\<lambda>j. oversize_call) (exec V2 (\<lambda>j. oversize_call) init_sys [Main 0, Main 0, Main 0, Main 1])
        [Main 0, Main 0, Main 0, Main 0]) 0) = Finished \<and>
   body (jobs (exec V2 (\<lambda>j. oversize_call) (exec V2 (\<lambda>j. oversize_call) init_sys [Main 0, Main 0, Main 0, Main 1])
        [Main 0, Main 0, Main 0, Main 0]) 0) = ''Request was cancelled due to large number\<newline>'' \<and>
   Atoi (sizeParam big_call) = (50000, None) \<and> (2000::int) < 50000 \<and>
   (pc (jobs (exec Part000 (\<lambda>j. big_call) (exec Part000 (\<lambda>j. big_call) init_sys [])
        [Main 0, Main 0, Main 0]) 0) = AwaitCancel \<or>
    pc (jobs (exec Part000 (\<lambda>j. big_call) (exec Part000 (\<lambda>j. big_call) init_sys [])
        [Main 0, Main 0, Main 0]) 0) = Finished)"
proof -
  let ?invs = "\<lambda>j::nat. oversize_call"
  let ?t = "exec V2 ?invs init_sys [Main 0, Main 0, Main 0]"
  let ?u = "exec V2 ?invs init_sys [Main 0, Main 0, Main 0, Main 1]"
  let ?i = "exec V2 ?invs init_sys []"
  let ?p = "exec V2 ?invs init_sys [Main 0]"
  let ?q = "exec V2 ?invs init_sys [Main 0, Main 0]"
  let ?binvs = "\<lambda>j::nat. big_call"
  let ?bi = "exec Part000 ?binvs init_sys []"
  have h1: "Atoi (sizeParam (?invs 0)) = (2001, None)" by code_simp
  have h2: "(2000::int) < 2001" by simp
  have g1: "Atoi (sizeParam (?binvs 0)) = (50000, None)" by code_simp
  have g2: "(2000::int) < 50000" by simp
  note at_t = oversize_request_waits [where invs = ?invs and j = 0 and ver = V2 and s = ?t
      and evs = "[Main 0, Main 0, Main 0]", OF h1 h2 refl]
  note at_u = oversize_request_waits [where invs = ?invs and j = 0 and ver = V2 and s = ?u
      and evs = "[Main 0, Main 0, Main 0, Main 1]", OF h1 h2 refl]
  note at_i = oversize_request_waits [where invs = ?invs and j = 0 and ver = V2 and s = ?i
      and evs = "[]", OF h1 h2 refl]
  note at_p = oversize_request_waits [where invs = ?invs and j = 0 and ver = V2 and s = ?p
      and evs = "[Main 0]", OF h1 h2 refl]
  note at_q = oversize_request_waits [where invs = ?invs and j = 0 and ver = V2 and s = ?q
      and evs = "[Main 0, Main 0]", OF h1 h2 refl]
  note at_b = oversize_request_waits [where invs = ?binvs and j = 0 and ver = Part000 and s = ?bi
      and evs = "[]", OF g1 g2 refl]
  have pt: "pc (jobs ?t 0) = AwaitCancel" by code_simp
  have ct: "0 \<notin> cancelled ?t" by code_simp
  have pu: "pc (jobs ?u 0) = AwaitCancel" by code_simp
  have cu: "0 \<in> cancelled ?u" by code_simp
  have pi: "pc (jobs ?i 0) = Accepted" by code_simp
  have pp: "pc (jobs ?p 0) = Superseded" by code_simp
  have pq: "pc (jobs ?q 0) = Registered" by code_simp
  note nv = at_t [THEN conjunct1]
  from pt ct have ptc: "pc (jobs ?t 0) = AwaitCancel \<and> 0 \<notin> cancelled ?t" by simp
  note blocked = at_t [THEN conjunct2, THEN conjunct2, THEN conjunct2, THEN conjunct2, THEN conjunct2, THEN conjunct2, THEN conjunct2, THEN conjunct2, THEN conjunct1, rule_format, OF ptc]
  have alone: "0 \<notin> cancelled ?t \<and>
      (\<forall>j'. j' \<noteq> 0 \<and> key_of ?invs j' = key_of ?invs 0 \<and> pc (jobs ?t j') = Accepted
      \<longrightarrow> Main j' \<notin> set [Main 0, Row 0 0, Main 0, Main 0])"
    using ct by simp
  note hang = at_t [THEN conjunct2, THEN conjunct2, THEN conjunct2, THEN conjunct2, THEN conjunct2, THEN conjunct2, THEN conjunct2, THEN conjunct2, THEN conjunct2, THEN conjunct2, THEN conjunct1, rule_format, OF alone, THEN conjunct2, THEN conjunct1]
  from pu cu have puc: "pc (jobs ?u 0) = AwaitCancel \<and> 0 \<in> cancelled ?u" by simp
  note fm = at_u [THEN conjunct2, THEN conjunct2, THEN conjunct2, THEN conjunct2, THEN conjunct2, THEN conjunct2, THEN conjunct2, THEN conjunct2, THEN conjunct2, THEN conjunct1, rule_format, OF puc]
  note fin = fm [THEN conjunct1]
  from fm [THEN conjunct2]
  have msg: "body (jobs (sys_step V2 ?invs ?u (Main 0)) 0) = ''Request was cancelled due to large number\<newline>''"
    by (simp add: oversize_body_def)
  note first = at_i [THEN conjunct2, THEN conjunct2, THEN conjunct2, THEN conjunct2, THEN conjunct2, THEN conjunct2, THEN conjunct2, THEN conjunct1, rule_format, OF pi]
  note second = at_p [THEN conjunct2, THEN conjunct2, THEN conjunct2, THEN conjunct2, THEN conjunct2, THEN conjunct2, THEN conjunct2, THEN conjunct2, THEN conjunct2, THEN conjunct2, THEN conjunct2, THEN conjunct1, rule_format, OF pp]
  note third = at_q [THEN conjunct2, THEN conjunct2, THEN conjunct2, THEN conjunct2, THEN conjunct2, THEN conjunct2, THEN conjunct2, THEN conjunct2, THEN conjunct2, THEN conjunct2, THEN conjunct2, THEN conjunct2, THEN conjunct1, rule_format, OF pq]
  have c3: "3 \<le> count_list [Main 0, Row 0 0, Main 1, Main 0, Main 1, Main 0] (Main 0)" by simp
  note reach = at_i [THEN conjunct2, THEN conjunct2, THEN conjunct2, THEN conjunct2, THEN conjunct2, THEN conjunct2, THEN conjunct2, THEN conjunct2, THEN conjunct2, THEN conjunct2, THEN conjunct2, THEN conjunct2, THEN conjunct2, THEN conjunct1, rule_format, OF c3]
  have c4: "4 \<le> count_list [Main 0, Main 0, Main 0, Main 0] (Main 0)" by simp
  from cu c4 have cu4: "0 \<in> cancelled ?u \<and> 4 \<le> count_list [Main 0, Main 0, Main 0, Main 0] (Main 0)"
    by simp
  note ret = at_u [THEN conjunct2, THEN conjunct2, THEN conjunct2, THEN conjunct2, THEN conjunct2, THEN conjunct2, THEN conjunct2, THEN conjunct2, THEN conjunct2, THEN conjunct2, THEN conjunct2, THEN conjunct2, THEN conjunct2, THEN conjunct2, rule_format, OF cu4]
  note retp = ret [THEN conjunct1]
  from ret [THEN conjunct2]
  have retb: "body (jobs (exec V2 ?invs ?u [Main 0, Main 0, Main 0, Main 0]) 0)
      = ''Request was cancelled due to large number\<newline>''"
    by (simp add: oversize_body_def)
  have b3: "3 \<le> count_list [Main 0, Main 0, Main 0] (Main 0)" by simp
  note breach = at_b [THEN conjunct2, THEN conjunct2, THEN conjunct2, THEN conjunct2, THEN conjunct2, THEN conjunct2, THEN conjunct2, THEN conjunct2, THEN conjunct2, THEN conjunct2, THEN conjunct2, THEN conjunct2, THEN conjunct2, THEN conjunct1, rule_format, OF b3]
  from h1 have h1': "Atoi (sizeParam oversize_call) = (2001, None)" by simp
  from g1 have g1': "Atoi (sizeParam big_call) = (50000, None)" by simp
  show ?thesis
    by (intro conjI h1' h2 pt ct nv blocked hang pu cu fin msg pi first pp second pq third
        c3 reach c4 retp retb g1' g2 breach)
qed

text \<open>
  Claim C2, as stated, at two requests for size 1 from the same address. The second
  arrives when the first has taken the default branch of its last \<open>select\<close> and has not
  yet written its response: it cancels the context of the first, which nobody reads any
  more, and both handlers return with the result.
\<close>

theorem latest_wins_counterexample:
  "pc (jobs (exec V2 (\<lambda>j. small_call) init_sys
        [Main 0, Main 0, Main 0, Main 0, Row 0 0, Row 0 0, Row 0 0, Row 0 0, Main 0, Main 0]) 0)
     = Writing \<and>
   pc (jobs (exec V2 (\<lambda>j. small_call) init_sys
        [Main 0, Main 0, Main 0, Main 0, Row 0 0, Row 0 0, Row 0 0, Row 0 0, Main 0, Main 0]) 1)
     = Accepted \<and>
   key_of (\<lambda>j. small_call) 0 = key_of (\<lambda>j. small_call) 1 \<and>
   pc (jobs (exec V2 (\<lambda>j. small_call) init_sys
        [Main 0, Main 0, Main 0, Main 0, Row 0 0, Row 0 0, Row 0 0, Row 0 0, Main 0, Main 0,
         Main 1]) 1)
     = Superseded \<and>
   pc (jobs (exec V2 (\<lambda>j. small_call) init_sys
        [Main 0, Main 0, Main 0, Main 0, Row 0 0, Row 0 0, Row 0 0, Row 0 0, Main 0, Main 0,
         Main 1]) 0)
     = Writing \<and>
   0 \<in> cancelled (exec V2 (\<lambda>j. small_call) init_sys
        [Main 0, Main 0, Main 0, Main 0, Row 0 0, Row 0 0, Row 0 0, Row 0 0, Main 0, Main 0,
         Main 1]) \<and>
   body (jobs (exec V2 (\<lambda>j. small_call) init_sys
        [Main 0, Main 0, Main 0, Main 0, Row 0 0, Row 0 0, Row 0 0, Row 0 0, Main 0, Main 0,
         Main 1, Main 0,
         Main 1, Main 1, Main 1, Row 1 0, Row 1 0, Row 1 0, Row 1 0, Main 1, Main 1, Main 1]) 0)
     = ''Matrix multiplication (size: 1) completed in 3 milliseconds\<newline>Resulting Matrix:\<newline>[42]\<newline>'' \<and>
   body (jobs (exec V2 (\<lambda>j. small_call) init_sys
        [Main 0, Main 0, Main 0, Main 0, Row 0 0, Row 0 0, Row 0 0, Row 0 0, Main 0, Main 0,
         Main 1, Main 0,
         Main 1, Main 1, Main 1, Row 1 0, Row 1 0, Row 1 0, Row 1 0, Main 1, Main 1, Main 1]) 1)
     = ''Matrix multiplication (size: 1) completed in 3 milliseconds\<newline>Resulting Matrix:\<newline>[42]\<newline>''"
  by code_simp

text \<open>
  Claim C2, amended. Take any state the server can reach, with either version of the
  handler, in which the entry of a key is the cancel function of call \<open>ja\<close>, call \<open>ja\<close> has
  not yet made its last \<open>select\<close>, and call \<open>jb\<close> with the same key has not yet taken its
  first step. That step of \<open>jb\<close> cancels the context of \<open>ja\<close> and not its own. From then
  on, whatever the interleaving, the response of \<open>ja\<close> is empty until its handler returns
  and is then one of the two cancellation messages, or the failure of the store in the
  version with the database; it is never a result. The handler of \<open>jb\<close>, when it returns,
  has written a result, a cancellation message or the failure of the store.
\<close>

theorem supersede_before_last_check:
  assumes "s = exec ver invs init_sys evs"
    and "activeRequests s (key_of invs jb) = Some ja"
    and "pc (jobs s jb) = Accepted"
    and "pc (jobs s ja) \<noteq> Writing" and "pc (jobs s ja) \<noteq> Finished"
  shows "ja \<noteq> jb \<and> key_of invs ja = key_of invs jb \<and>
     ja \<in> cancelled (sys_step ver invs s (Main jb)) \<and>
     jb \<notin> cancelled (sys_step ver invs s (Main jb)) \<and>
     pc (jobs (sys_step ver invs s (Main jb)) jb) = Superseded \<and>
     (\<forall>es. (pc (jobs (exec ver invs s (Main jb # es)) ja) \<noteq> Finished \<and>
             body (jobs (exec ver invs s (Main jb # es)) ja) = []) \<or>
            (pc (jobs (exec ver invs s (Main jb # es)) ja) = Finished \<and>
             (body (jobs (exec ver invs s (Main jb # es)) ja) = cancelled_body \<or>
              body (jobs (exec ver invs s (Main jb # es)) ja) = oversize_body \<or>
              body (jobs (exec ver invs s (Main jb # es)) ja) = store_failed_body \<and>
                ver = V2 \<and> storeFails (invs ja)))) \<and>
     (\<forall>es N ms R. body (jobs (exec ver invs s (Main jb # es)) ja) \<noteq> success_body N ms R) \<and>
     (\<forall>es. pc (jobs (exec ver invs s (Main jb # es)) jb) = Finished \<longrightarrow>
        body (jobs (exec ver invs s (Main jb # es)) jb) = cancelled_body \<or>
        body (jobs (exec ver invs s (Main jb # es)) jb) = oversize_body \<or>
        body (jobs (exec ver invs s (Main jb # es)) jb) = store_failed_body \<or>
        (\<exists>N R. body (jobs (exec ver invs s (Main jb # es)) jb)
                  = success_body N (elapsedMillis (invs jb)) R))"
proof -
  let ?s' = "sys_step ver invs s (Main jb)"
  have inv: "sys_inv ver invs s" unfolding assms(1) by (rule sys_inv_reachable)
  then have nc: "\<not> crashed s" by (simp add: sys_inv_def)
  from registry_key [OF inv assms(2)] have k: "key_of invs ja = key_of invs jb"
    and r1: "registered (pc (jobs s ja))" by simp_all
  from r1 assms(3) have ne: "ja \<noteq> jb" by (auto simp: registered_def)
  have c1: "ja \<in> cancelled ?s'"
    using assms(2,3) by (simp add: Main_cancelled [OF nc])
  have n2: "jb \<notin> cancelled s"
    using inv assms(3) by (auto simp: sys_inv_def registered_def)
  with ne have c2: "jb \<notin> cancelled ?s'"
    using assms(2,3) by (simp add: Main_cancelled [OF nc])
  have p2: "pc (jobs ?s' jb) = Superseded"
    using assms(3) nc by (simp add: step_defs)
  have same: "jobs ?s' ja = jobs s ja" using ne by (simp add: Main_other_job)
  have b1: "body (jobs s ja) = []"
    using assms(5) reachable_body [of ver invs evs ja] by (simp add: assms(1))
  from r1 assms(4,5) have pre: "pc (jobs s ja) = Registered \<or> pc (jobs s ja) = AwaitCancel \<or>
      pc (jobs s ja) = Sized \<or> pc (jobs s ja) = Computing \<or> pc (jobs s ja) = Reporting"
    by (cases "pc (jobs s ja)") (simp_all add: registered_def)
  with c1 b1 same have d: "doomed ver invs ja ?s'" by (simp add: doomed_def)
  have D: "doomed ver invs ja (exec ver invs s (Main jb # es))" for es
    unfolding exec_Cons using d by (rule doomed_exec)
  have A: "(pc (jobs (exec ver invs s (Main jb # es)) ja) \<noteq> Finished \<and>
             body (jobs (exec ver invs s (Main jb # es)) ja) = []) \<or>
            (pc (jobs (exec ver invs s (Main jb # es)) ja) = Finished \<and>
             (body (jobs (exec ver invs s (Main jb # es)) ja) = cancelled_body \<or>
              body (jobs (exec ver invs s (Main jb # es)) ja) = oversize_body \<or>
              body (jobs (exec ver invs s (Main jb # es)) ja) = store_failed_body \<and>
                ver = V2 \<and> storeFails (invs ja)))" for es
    using D [of es] by (auto simp: doomed_def)
  have B: "body (jobs (exec ver invs s (Main jb # es)) ja) \<noteq> success_body N ms R" for es N ms R
    using A [of es] success_body_distinct [of N ms R]
    by (auto simp: success_body_def)
  have C: "body (jobs (exec ver invs s (Main jb # es)) jb) = cancelled_body \<or>
        body (jobs (exec ver invs s (Main jb # es)) jb) = oversize_body \<or>
        body (jobs (exec ver invs s (Main jb # es)) jb) = store_failed_body \<or>
        (\<exists>N R. body (jobs (exec ver invs s (Main jb # es)) jb)
                  = success_body N (elapsedMillis (invs jb)) R)"
    if "pc (jobs (exec ver invs s (Main jb # es)) jb) = Finished" for es
    using that finished_bodies [of ver invs "evs @ Main jb # es" jb]
    by (simp add: assms(1) exec_append)
  from ne k c1 c2 p2 A B C show ?thesis by blast
qed

text \<open>
  The theorem at two requests for size 1 from the same address, the second arriving
  while the row goroutine of the first is inside its inner loop.
\<close>

theorem supersede_before_last_check_witness:
  "activeRequests (exec V2 (\<lambda>j. small_call) init_sys [Main 0, Main 0, Main 0, Main 0, Row 0 0])
      (key_of (\<lambda>j. small_call) 1) = Some 0 \<and>
   pc (jobs (exec V2 (\<lambda>j. small_call) init_sys [Main 0, Main 0, Main 0, Main 0, Row 0 0]) 1)
     = Accepted \<and>
   pc (jobs (exec V2 (\<lambda>j. small_call) init_sys [Main 0, Main 0, Main 0, Main 0, Row 0 0]) 0)
     = Computing \<and>
   0 \<in> cancelled (sys_step V2 (\<lambda>j. small_call)
        (exec V2 (\<lambda>j. small_call) init_sys [Main 0, Main 0, Main 0, Main 0, Row 0 0]) (Main 1)) \<and>
   1 \<notin> cancelled (sys_step V2 (\<lambda>j. small_call)
        (exec V2 (\<lambda>j. small_call) init_sys [Main 0, Main 0, Main 0, Main 0, Row 0 0]) (Main 1)) \<and>
   pc (jobs (exec V2 (\<lambda>j. small_call)
        (exec V2 (\<lambda>j. small_call) init_sys [Main 0, Main 0, Main 0, Main 0, Row 0 0])
        [Main 1, Row 0 0, Row 0 0, Row 0 0, Main 0, Main 0,
         Main 1, Main 1, Main 1, Row 1 0, Row 1 0, Row 1 0, Row 1 0, Main 1, Main 1, Main 1]) 0)
     = Finished \<and>
   body (jobs (exec V2 (\<lambda>j. small_call)
        (exec V2 (\<lambda>j. small_call) init_sys [Main 0, Main 0, Main 0, Main 0, Row 0 0])
        [Main 1, Row 0 0, Row 0 0, Row 0 0, Main 0, Main 0,
         Main 1, Main 1, Main 1, Row 1 0, Row 1 0, Row 1 0, Row 1 0, Main 1, Main 1, Main 1]) 0)
     = ''Request was cancelled\<newline>'' \<and>
   body (jobs (exec V2 (\<lambda>j. small_call)
        (exec V2 (\<lambda>j. small_call) init_sys [Main 0, Main 0, Main 0, Main 0, Row 0 0])
        [Main 1, Row 0 0, Row 0 0, Row 0 0, Main 0, Main 0,
         Main 1, Main 1, Main 1, Row 1 0, Row 1 0, Row 1 0, Row 1 0, Main 1, Main 1, Main 1]) 1)
     = ''Matrix multiplication (size: 1) completed in 3 milliseconds\<newline>Resulting Matrix:\<newline>[42]\<newline>''"
proof -
  let ?invs = "\<lambda>j::nat. small_call"
  let ?s = "exec V2 ?invs init_sys [Main 0, Main 0, Main 0, Main 0, Row 0 0]"
  let ?es = "[Row 0 0, Row 0 0, Row 0 0, Main 0, Main 0,
         Main 1, Main 1, Main 1, Row 1 0, Row 1 0, Row 1 0, Row 1 0, Main 1, Main 1, Main 1]"
  have a: "activeRequests ?s (key_of ?invs 1) = Some 0" by code_simp
  have p2: "pc (jobs ?s 1) = Accepted" by code_simp
  have p1: "pc (jobs ?s 0) = Computing" by code_simp
  from p1 have nw: "pc (jobs ?s 0) \<noteq> Writing" and nf: "pc (jobs ?s 0) \<noteq> Finished" by simp_all
  note inst = supersede_before_last_check [where ver = V2 and invs = ?invs and ja = 0 and jb = 1
      and s = ?s and evs = "[Main 0, Main 0, Main 0, Main 0, Row 0 0]", OF refl a p2 nw nf]
  from inst have c1: "0 \<in> cancelled (sys_step V2 ?invs ?s (Main 1))"
    and c2: "1 \<notin> cancelled (sys_step V2 ?invs ?s (Main 1))" by blast+
  have f: "pc (jobs (exec V2 ?invs ?s (Main 1 # ?es)) 0) = Finished" by code_simp
  have ns: "body (jobs (exec V2 ?invs ?s (Main 1 # ?es)) 0) \<noteq> oversize_body"
    "body (jobs (exec V2 ?invs ?s (Main 1 # ?es)) 0) \<noteq> store_failed_body"
    by code_simp+
  from inst f ns have b1: "body (jobs (exec V2 ?invs ?s (Main 1 # ?es)) 0) = ''Request was cancelled\<newline>''"
    unfolding cancelled_body_def by blast
  have b2: "body (jobs (exec V2 ?invs ?s (Main 1 # ?es)) 1)
     = ''Matrix multiplication (size: 1) completed in 3 milliseconds\<newline>Resulting Matrix:\<newline>[42]\<newline>''"
    by code_simp
  show ?thesis by (intro conjI a p2 p1 c1 c2 f b1 b2)
qed

text \<open>
  The amended claim needs the entry of the key to be the first call's. Between
  \<open>cancelPreviousRequest\<close> and the registration the mutex is released: when two handlers
  for one key both pass \<open>cancelPreviousRequest\<close> before either registers, the second
  registration overwrites the first, the first context is never cancelled, and both
  return with a result.
\<close>

lemma supersede_register_gap_example:
  "pc (jobs (exec V2 (\<lambda>j. small_call) init_sys [Main 0, Main 1, Main 0, Main 1]) 0) = Registered \<and>
   activeRequests (exec V2 (\<lambda>j. small_call) init_sys [Main 0, Main 1, Main 0, Main 1])
     (key_of (\<lambda>j. small_call) 0) = Some 1 \<and>
   0 \<notin> cancelled (exec V2 (\<lambda>j. small_call) init_sys
        [Main 0, Main 1, Main 0, Main 1,
         Main 0, Main 0, Row 0 0, Row 0 0, Row 0 0, Row 0 0, Main 0, Main 0, Main 0,
         Main 1, Main 1, Row 1 0, Row 1 0, Row 1 0, Row 1 0, Main 1, Main 1, Main 1]) \<and>
   body (jobs (exec V2 (\<lambda>j. small_call) init_sys
        [Main 0, Main 1, Main 0, Main 1,
         Main 0, Main 0, Row 0 0, Row 0 0, Row 0 0, Row 0 0, Main 0, Main 0, Main 0,
         Main 1, Main 1, Row 1 0, Row 1 0, Row 1 0, Row 1 0, Main 1, Main 1, Main 1]) 0)
     = ''Matrix multiplication (size: 1) completed in 3 milliseconds\<newline>Resulting Matrix:\<newline>[42]\<newline>'' \<and>
   body (jobs (exec V2 (\<lambda>j. small_call) init_sys
        [Main 0, Main 1, Main 0, Main 1,
         Main 0, Main 0, Row 0 0, Row 0 0, Row 0 0, Row 0 0, Main 0, Main 0, Main 0,
         Main 1, Main 1, Row 1 0, Row 1 0, Row 1 0, Row 1 0, Main 1, Main 1, Main 1]) 1)
     = ''Matrix multiplication (size: 1) completed in 3 milliseconds\<newline>Resulting Matrix:\<newline>[42]\<newline>''"
  by code_simp

end
